theory Spec2Isabelle
  imports Complex_Main "HOL-Library.Multiset"
begin

section \<open>Data model (types.ts)\<close>

text \<open>
  A \<open>WordItem\<close> is one vocabulary entry. JavaScript numbers that hold counters, day
  counts and millisecond timestamps are integers here (below \<open>2^53\<close> integer arithmetic on
  doubles is exact); \<open>easeFactor\<close> is a fraction and is modelled by an exact rational. The
  scores of the smart review are rounded as doubles, see below. The optional
  fields of the interface (\<open>groupTitle?\<close>, \<open>totalAttempts?\<close>, \<open>totalWrong?\<close>,
  \<open>lastWrongAt?\<close>) and the nullable ones (\<open>lastReviewed\<close>, \<open>lastWrongAt\<close>) are
  options, with \<open>None\<close> for both \<open>undefined\<close> and \<open>null\<close>.
  The fields \<open>id\<close> and \<open>text\<close> are named \<open>id_str\<close> and \<open>text_str\<close>.
\<close>

record WordItem =
  id_str :: string
  text_str :: string
  groupTitle :: "string option"
  addedAt :: int
  lastReviewed :: "int option"
  nextReview :: int
  streak :: int
  easeFactor :: rat
  interval :: int
  totalAttempts :: "int option"
  totalWrong :: "int option"
  lastWrongAt :: "int option"

datatype AppView = DASHBOARD | INPUT | DICTATION | CORRECTION | SETTINGS | WORD_LIST

datatype PlaybackOrder = SEQUENTIAL | REVERSE | SHUFFLE

record DictationSettings =
  voice :: string
  intervalSeconds :: int
  order :: PlaybackOrder
  autoRepeat :: int
  maxReviewBatchSize :: int
  silenceThreshold :: int

definition DEFAULT_SETTINGS :: DictationSettings where
  "DEFAULT_SETTINGS =
     \<lparr>voice = '''', intervalSeconds = 5, order = SEQUENTIAL, autoRepeat = 1,
      maxReviewBatchSize = 10, silenceThreshold = 500\<rparr>"

section \<open>ReviewScheduler (services/storageService.ts)\<close>

definition ONE_DAY :: int where
  "ONE_DAY = 24 * 60 * 60 * 1000"

text \<open>\<open>Math.round\<close>: the nearest integer, a tie going up.\<close>

definition js_round :: "rat \<Rightarrow> int" where
  "js_round x = \<lfloor>x + 1 / 2\<rfloor>"

text \<open>\<open>x || 0\<close> on an optional number: an absent value and \<open>0\<close> both give \<open>0\<close>.\<close>

definition or0 :: "int option \<Rightarrow> int" where
  "or0 x = (case x of None \<Rightarrow> 0 | Some v \<Rightarrow> v)"

text \<open>
  \<open>calculateNextReview\<close> reads the clock once (\<open>Date.now()\<close>); the reading is the
  parameter \<open>now\<close>. The local variables of the source are the bindings of the \<open>let\<close>;
  the branch on \<open>isCorrect\<close> assigns \<open>streak\<close>, \<open>interval\<close>, \<open>easeFactor\<close>,
  \<open>totalWrong\<close> and \<open>lastWrongAt\<close> in that order.
\<close>

definition calculateNextReview :: "WordItem \<Rightarrow> bool \<Rightarrow> int \<Rightarrow> WordItem" where
  "calculateNextReview word isCorrect now =
     (let totalAttempts1 = or0 (totalAttempts word) + 1;
          totalWrong1 = or0 (totalWrong word);
          (streak1, interval1, easeFactor1, totalWrong2, lastWrongAt1) =
            (if isCorrect then
               (max (streak word + 1) 10,
                (if interval word > 14
                 then js_round (of_int (interval word) * (13 / 10)) else 14),
                max (13 / 10) (easeFactor word + 1 / 10),
                totalWrong1,
                lastWrongAt word)
             else
               (0, 0,
                max (13 / 10) (easeFactor word - 2 / 10),
                totalWrong1 + 1,
                Some now));
          nextReviewTime = (if interval1 = 0 then now else now + interval1 * ONE_DAY)
      in word\<lparr>lastReviewed := Some now,
              nextReview := nextReviewTime,
              streak := streak1,
              easeFactor := easeFactor1,
              interval := interval1,
              totalAttempts := Some totalAttempts1,
              totalWrong := Some totalWrong2,
              lastWrongAt := lastWrongAt1\<rparr>)"

text \<open>A record as \<open>handleSaveWords\<close> creates it (App.tsx), for the examples below.\<close>

definition newWord :: "string \<Rightarrow> string \<Rightarrow> string \<Rightarrow> int \<Rightarrow> WordItem" where
  "newWord uuid txt title now =
     \<lparr>id_str = uuid, text_str = txt, groupTitle = Some title, addedAt = now,
      lastReviewed = None, nextReview = now, streak = 0, easeFactor = 5 / 2,
      interval = 0, totalAttempts = Some 0, totalWrong = Some 0, lastWrongAt = None\<rparr>"

section \<open>Application state and handlers (App.tsx)\<close>

text \<open>
  The component state that the handlers below read and write: the word collection, the
  settings, the current view and the words of the session being started. \<open>alert(...)\<close>
  is an output; the messages shown are collected in \<open>alerts\<close>, one constructor per
  message of the source (the texts are Chinese: "no wrong-word record yet" in
  \<open>handleSmartReview\<close>, "this unit has no wrong words to review" in
  \<open>handleReviewGroup\<close>).
\<close>

datatype Alert = NoWrongWordsYet | NoDueWordsInGroup

record AppState =
  words :: "WordItem list"
  settings :: DictationSettings
  view :: AppView
  sessionWords :: "WordItem list"
  alerts :: "Alert list"

text \<open>\<open>allDueWords\<close>: the memoised filter over \<open>words\<close>, with the clock reading \<open>now\<close>.\<close>

definition allDueWords :: "WordItem list \<Rightarrow> int \<Rightarrow> WordItem list" where
  "allDueWords ws now = filter (\<lambda>w. nextReview w \<le> now) ws"

subsection \<open>Array.prototype.sort\<close>

text \<open>
  \<open>Array.prototype.sort(comparefn)\<close> is a builtin of the platform. The model follows
  the sort of the V8 engine (Chrome, Node): the array is one run, found by
  \<open>countAndMakeRun\<close> (the longest non-descending prefix, or the longest strictly
  descending prefix reversed) and extended over the rest of the array by
  \<open>binaryInsertionSort\<close>, which places every further element by \<open>binarySearch\<close>. This
  is the whole of the engine's algorithm for an array of fewer than 64 elements; a longer
  array is cut by the engine into several such runs that are then merged, and the merge is
  not modelled. \<open>comparefn\<close> is called as \<open>comparefn(x, y)\<close> in the order the engine
  calls it and threads a state through the calls, so that a comparator that reads
  \<open>Math.random()\<close> can be expressed. In \<open>binarySearch\<close> the index \<open>mid\<close> is always
  inside the array. For a comparator that orders by a score the result is the stable sort
  by that score (\<open>array_sort_key\<close> below), which every conforming engine returns.
\<close>

type_synonym ('a, 's) comparefn = "'a \<Rightarrow> 'a \<Rightarrow> 's \<Rightarrow> rat \<times> 's"

fun extendRun :: "('a, 's) comparefn \<Rightarrow> bool \<Rightarrow> 'a \<Rightarrow> 'a list \<Rightarrow> 's \<Rightarrow> nat \<times> 's" where
  "extendRun cmp isDescending previousElement [] s = (0, s)"
| "extendRun cmp isDescending previousElement (currentElement # rest) s =
     (case cmp currentElement previousElement s of
        (outcome, s1) \<Rightarrow>
          if (if isDescending then 0 \<le> outcome else outcome < 0) then (0, s1)
          else (case extendRun cmp isDescending currentElement rest s1 of
                  (k, s2) \<Rightarrow> (Suc k, s2)))"

definition countAndMakeRun :: "('a, 's) comparefn \<Rightarrow> 'a list \<Rightarrow> 's \<Rightarrow> 'a list \<times> nat \<times> 's" where
  "countAndMakeRun cmp a s =
     (case a of
        elementHigh # elementLow # rest \<Rightarrow>
          (case cmp elementLow elementHigh s of
             (outcome, s1) \<Rightarrow>
               (let isDescending = (outcome < 0) in
                case extendRun cmp isDescending elementLow rest s1 of
                  (k, s2) \<Rightarrow>
                    (let runLength = 2 + k
                     in ((if isDescending then rev (take runLength a) @ drop runLength a
                          else a),
                         runLength, s2))))
      | _ \<Rightarrow> (a, length a, s))"

function binarySearch :: "('a, 's) comparefn \<Rightarrow> 'a \<Rightarrow> 'a list \<Rightarrow> nat \<Rightarrow> nat \<Rightarrow> 's \<Rightarrow> nat \<times> 's" where
  "binarySearch cmp pivot a left right s =
     (if left < right then
        (let mid = left + (right - left) div 2 in
         case cmp pivot (a ! mid) s of
           (outcome, s1) \<Rightarrow>
             if outcome < 0 then binarySearch cmp pivot a left mid s1
             else binarySearch cmp pivot a (mid + 1) right s1)
      else (left, s))"
  by pat_completeness auto
termination
  by (relation "measure (\<lambda>(cmp, pivot, a, left, right, s). right - left)") auto

declare binarySearch.simps [simp del]

fun binaryInsertionSort :: "('a, 's) comparefn \<Rightarrow> 'a list \<Rightarrow> 'a list \<Rightarrow> 's \<Rightarrow> 'a list \<times> 's" where
  "binaryInsertionSort cmp run [] s = (run, s)"
| "binaryInsertionSort cmp run (pivot # rest) s =
     (case binarySearch cmp pivot run 0 (length run) s of
        (left, s1) \<Rightarrow>
          binaryInsertionSort cmp (take left run @ pivot # drop left run) rest s1)"

definition array_sort :: "('a, 's) comparefn \<Rightarrow> 'a list \<Rightarrow> 's \<Rightarrow> 'a list \<times> 's" where
  "array_sort cmp a s =
     (if length a < 2 then (a, s)
      else (case countAndMakeRun cmp a s of
              (b, runLength, s1) \<Rightarrow>
                binaryInsertionSort cmp (take runLength b) (drop runLength b) s1))"

text \<open>
  \<open>xs.slice(0, end)\<close> for an integer \<open>end\<close>: a negative \<open>end\<close> counts from the end
  of the array.
\<close>

definition slice0 :: "'a list \<Rightarrow> int \<Rightarrow> 'a list" where
  "slice0 xs e = (if e < 0 then take (nat (int (length xs) + e)) xs else take (nat e) xs)"

subsection \<open>Double arithmetic\<close>

text \<open>
  The scores of the smart review are fractions computed in IEEE binary64. A finite double
  is a rational; \<open>fl64\<close> rounds a rational to 53 significant bits, to nearest with ties
  to even, which is what \<open>/\<close>, \<open>+\<close> and \<open>-\<close> on doubles return. \<open>rne\<close> rounds
  to the nearest integer with ties to even, \<open>bitlen\<close> is the number of binary digits of
  a positive integer, and \<open>binade x\<close> is the exponent \<open>e\<close> with
  \<open>2^e \<le> |x| < 2^(e+1)\<close>. The exponent range is not bounded: overflow to
  \<open>Infinity\<close> and subnormal results do not arise for scores computed from integer fields
  below \<open>2^53\<close>.
\<close>

definition rne :: "rat \<Rightarrow> int" where
  "rne x =
     (let f = \<lfloor>x\<rfloor>; r = x - of_int f
      in if r < 1 / 2 then f else if 1 / 2 < r then f + 1 else if even f then f else f + 1)"

function bitlen :: "int \<Rightarrow> int" where
  "bitlen n = (if n \<le> 0 then 0 else 1 + bitlen (n div 2))"
  by pat_completeness auto
termination
  by (relation "measure nat") auto

declare bitlen.simps [simp del]

definition binade :: "rat \<Rightarrow> int" where
  "binade x =
     (case quotient_of \<bar>x\<bar> of
        (p, q) \<Rightarrow>
          (let d = bitlen p - bitlen q
           in if 2 powi d \<le> \<bar>x\<bar> then d else d - 1))"

definition fl64 :: "rat \<Rightarrow> rat" where
  "fl64 x = (if x = 0 then 0 else (let u = 2 powi (binade x - 52) in of_int (rne (x / u)) * u))"

subsection \<open>Smart review\<close>

text \<open>
  The comparator of \<open>handleSmartReview\<close>. \<open>a.lastWrongAt ? (now - a.lastWrongAt) : 0\<close>
  tests truthiness: an absent timestamp and the timestamp \<open>0\<close> both give \<open>0\<close>. The
  subtraction of the timestamps and the doubling of the count are integer operations; the
  division, the sum and the final difference are rounded.
\<close>

definition timeSince :: "int \<Rightarrow> int option \<Rightarrow> int" where
  "timeSince now t = (case t of None \<Rightarrow> 0 | Some v \<Rightarrow> if v \<noteq> 0 then now - v else 0)"

definition smartCompare :: "int \<Rightarrow> WordItem \<Rightarrow> WordItem \<Rightarrow> rat" where
  "smartCompare now a b =
     (let wrongA = or0 (totalWrong a);
          wrongB = or0 (totalWrong b);
          timeA = timeSince now (lastWrongAt a);
          timeB = timeSince now (lastWrongAt b);
          daysA = fl64 (of_int timeA / of_int ONE_DAY);
          daysB = fl64 (of_int timeB / of_int ONE_DAY);
          scoreA = fl64 (of_int (wrongA * 2) + daysA);
          scoreB = fl64 (of_int (wrongB * 2) + daysB)
      in fl64 (scoreB - scoreA))"

definition smartCandidates :: "WordItem list \<Rightarrow> WordItem list" where
  "smartCandidates ws = filter (\<lambda>w. or0 (totalWrong w) > 0) ws"

definition sortedCandidates :: "int \<Rightarrow> WordItem list \<Rightarrow> WordItem list" where
  "sortedCandidates now ws =
     fst (array_sort (\<lambda>a b s. (smartCompare now a b, s)) (smartCandidates ws) ())"

text \<open>\<open>settings.maxReviewBatchSize || 10\<close>.\<close>

definition smartLimit :: "DictationSettings \<Rightarrow> int" where
  "smartLimit cfg = (if maxReviewBatchSize cfg = 0 then 10 else maxReviewBatchSize cfg)"

text \<open>\<open>selected\<close>: the sorted candidates cut at the limit.\<close>

definition smartSelected :: "int \<Rightarrow> DictationSettings \<Rightarrow> WordItem list \<Rightarrow> WordItem list" where
  "smartSelected now cfg ws = slice0 (sortedCandidates now ws) (smartLimit cfg)"

definition handleSmartReview :: "AppState \<Rightarrow> int \<Rightarrow> AppState" where
  "handleSmartReview st now =
     (let candidates = smartCandidates (words st) in
      if length candidates = 0 then st\<lparr>alerts := alerts st @ [NoWrongWordsYet]\<rparr>
      else
        (let selected = smartSelected now (settings st) (words st)
         in st\<lparr>sessionWords := selected, view := DICTATION\<rparr>))"

text \<open>
  The score that \<open>smartCompare\<close> computes for one word (\<open>scoreA\<close>, \<open>scoreB\<close> in the
  source), named for the statements below.
\<close>

definition reviewScore :: "int \<Rightarrow> WordItem \<Rightarrow> rat" where
  "reviewScore now w =
     fl64 (of_int (or0 (totalWrong w) * 2)
           + fl64 (of_int (timeSince now (lastWrongAt w)) / of_int ONE_DAY))"

subsection \<open>Group review\<close>

definition handleReviewGroup :: "AppState \<Rightarrow> WordItem list \<Rightarrow> bool \<Rightarrow> int \<Rightarrow> AppState" where
  "handleReviewGroup st groupWords onlyErrors now =
     (if onlyErrors then
        (let targetWords = filter (\<lambda>w. nextReview w \<le> now) groupWords in
         if length targetWords = 0 then st\<lparr>alerts := alerts st @ [NoDueWordsInGroup]\<rparr>
         else st\<lparr>sessionWords := targetWords, view := DICTATION\<rparr>)
      else st\<lparr>sessionWords := groupWords, view := DICTATION\<rparr>)"

subsection \<open>Manual status override\<close>

datatype WordStatus = REVIEW | MASTERED

text \<open>
  \<open>handleUpdateWordStatus\<close> reads the clock anew at every \<open>Date.now()\<close>: once in the
  \<open>REVIEW\<close> branch and twice in the \<open>MASTERED\<close> branch (first for \<open>nextReview\<close>,
  then for \<open>lastReviewed\<close>), for every word whose \<open>id\<close> matches. \<open>clock\<close> is the
  sequence of the readings of one call of the handler and the number threaded through is
  the count of readings made so far. \<open>overrideStatus\<close> is the body applied to a
  matching word: the \<open>MASTERED\<close> branch writes \<open>streak\<close>, \<open>interval\<close>,
  \<open>nextReview\<close> and \<open>lastReviewed\<close>; the \<open>REVIEW\<close> branch writes \<open>streak\<close>,
  \<open>interval\<close>, \<open>nextReview\<close> and \<open>easeFactor\<close>. \<open>updateWords\<close> is
  \<open>words.map(...)\<close>.
\<close>

definition overrideStatus :: "(nat \<Rightarrow> int) \<Rightarrow> WordItem \<Rightarrow> WordStatus \<Rightarrow> nat \<Rightarrow> WordItem \<times> nat" where
  "overrideStatus clock w status n =
     (if status = MASTERED then
        (w\<lparr>streak := 10,
           interval := 30,
           nextReview := clock n + 30 * 24 * 60 * 60 * 1000,
           lastReviewed := Some (clock (n + 1))\<rparr>,
         n + 2)
      else
        (w\<lparr>streak := 0,
           interval := 0,
           nextReview := clock n,
           easeFactor := 5 / 2\<rparr>,
         n + 1))"

fun updateWords :: "(nat \<Rightarrow> int) \<Rightarrow> WordItem \<Rightarrow> WordStatus \<Rightarrow> WordItem list \<Rightarrow> nat \<Rightarrow> WordItem list" where
  "updateWords clock targetWord status [] n = []"
| "updateWords clock targetWord status (w # ws) n =
     (if id_str w = id_str targetWord then
        (case overrideStatus clock w status n of
           (w1, n1) \<Rightarrow> w1 # updateWords clock targetWord status ws n1)
      else w # updateWords clock targetWord status ws n)"

definition handleUpdateWordStatus :: "AppState \<Rightarrow> WordItem \<Rightarrow> WordStatus \<Rightarrow> (nat \<Rightarrow> int) \<Rightarrow> AppState" where
  "handleUpdateWordStatus st targetWord status clock =
     (let updated = updateWords clock targetWord status (words st) 0
      in st\<lparr>words := updated\<rparr>)"

section \<open>Presentation order (components/DictationSession.tsx)\<close>

text \<open>
  The effect that initialises the play queue. \<open>Math.random()\<close> is the sequence \<open>rnd\<close>
  of draws; the state threaded through the sort is the number of draws made so far. The
  comparator of the shuffle ignores its arguments and returns \<open>Math.random() - 0.5\<close>.
\<close>

definition shuffleCompare :: "(nat \<Rightarrow> rat) \<Rightarrow> (WordItem, nat) comparefn" where
  "shuffleCompare rnd a b n = (rnd n - 1 / 2, Suc n)"

definition initializeQueue :: "(nat \<Rightarrow> rat) \<Rightarrow> WordItem list \<Rightarrow> DictationSettings \<Rightarrow> WordItem list" where
  "initializeQueue rnd ws cfg =
     (let queue = ws in
      if order cfg = REVERSE then rev queue
      else if order cfg = SHUFFLE then fst (array_sort (shuffleCompare rnd) queue 0)
      else queue)"

section \<open>Example data\<close>

text \<open>A word that was marked mastered by hand (interval 30) after one wrong answer.\<close>

definition exampleWord :: WordItem where
  "exampleWord =
     \<lparr>id_str = ''word-7'', text_str = ''harbour'', groupTitle = None, addedAt = 1000,
      lastReviewed = Some 5000, nextReview = 2592005000, streak = 10, easeFactor = 5 / 2,
      interval = 30, totalAttempts = Some 4, totalWrong = Some 1, lastWrongAt = Some 3000\<rparr>"

text \<open>
  The same word with the intervals 15, 16 and 17, which 1.3 takes to 19.5 (a tie), 20.8
  and 22.1.
\<close>

definition intervalWord :: "int \<Rightarrow> WordItem" where
  "intervalWord n = exampleWord\<lparr>interval := n\<rparr>"

text \<open>A collection of two words, on the dashboard.\<close>

definition exampleState :: AppState where
  "exampleState =
     \<lparr>words = [exampleWord, newWord ''word-8'' ''lantern'' ''unit 1'' 1000],
      settings = DEFAULT_SETTINGS, view = DASHBOARD, sessionWords = [], alerts = []\<rparr>"

text \<open>A clock that starts at 6000 and advances one millisecond with every reading.\<close>

definition exampleClock :: "nat \<Rightarrow> int" where
  "exampleClock n = 6000 + int n"

text \<open>A word that was answered wrong \<open>n\<close> times, the last time at \<open>t\<close>.\<close>

definition wrongWord :: "string \<Rightarrow> int \<Rightarrow> int \<Rightarrow> WordItem" where
  "wrongWord uuid n t =
     (newWord uuid ''word'' ''unit 1'' 1000)
       \<lparr>totalAttempts := Some n, totalWrong := Some n, lastWrongAt := Some t\<rparr>"

text \<open>
  Two words last answered wrong one day and ten days before the clock reading \<open>now\<close>,
  in the order A, B.
\<close>

definition pairState :: "int \<Rightarrow> AppState" where
  "pairState now =
     \<lparr>words = [wrongWord ''A'' 3 (now - 86400000), wrongWord ''B'' 1 (now - 864000000)],
      settings = DEFAULT_SETTINGS, view = DASHBOARD, sessionWords = [], alerts = []\<rparr>"

text \<open>
  Two words whose scores are equal as fractions (one wrong answer 1475757854 ms ago, two
  wrong answers two days later) and differ as doubles: 19.08053071759259 for the first and
  19.080530717592595 for the second.
\<close>

definition nearTieA :: WordItem where
  "nearTieA = wrongWord ''A'' 1 1698524242146"

definition nearTieB :: WordItem where
  "nearTieB = wrongWord ''B'' 2 1698697042146"

text \<open>Fifteen words with a wrong answer, and a collection of them and one fresh word.\<close>

definition fifteenWrong :: "WordItem list" where
  "fifteenWrong =
     [wrongWord ''w01'' 1 5000, wrongWord ''w02'' 2 5000, wrongWord ''w03'' 3 5000,
      wrongWord ''w04'' 4 5000, wrongWord ''w05'' 5 5000, wrongWord ''w06'' 6 5000,
      wrongWord ''w07'' 7 5000, wrongWord ''w08'' 8 5000, wrongWord ''w09'' 9 5000,
      wrongWord ''w10'' 10 5000, wrongWord ''w11'' 11 5000, wrongWord ''w12'' 12 5000,
      wrongWord ''w13'' 13 5000, wrongWord ''w14'' 14 5000, wrongWord ''w15'' 15 5000]"

definition bigState :: AppState where
  "bigState =
     \<lparr>words = newWord ''w00'' ''fresh'' ''unit 1'' 1000 # fifteenWrong,
      settings = DEFAULT_SETTINGS, view = DASHBOARD, sessionWords = [], alerts = []\<rparr>"

text \<open>A word due exactly at 6000 and one due a millisecond later.\<close>

definition dueWord :: WordItem where
  "dueWord = newWord ''w20'' ''meadow'' ''unit 2'' 6000"

definition laterWord :: WordItem where
  "laterWord = (newWord ''w21'' ''thistle'' ''unit 2'' 6000)\<lparr>nextReview := 6001\<rparr>"

text \<open>
  A word with a wrong answer on record and no \<open>lastWrongAt\<close>, as an imported file may
  hold it.
\<close>

definition undatedWord :: WordItem where
  "undatedWord = (wrongWord ''w30'' 3 0)\<lparr>lastWrongAt := None\<rparr>"

text \<open>
  A session of four words and one of two, shuffled with draws that alternate 0.75 and
  0.25.
\<close>

definition fourWords :: "WordItem list" where
  "fourWords =
     [wrongWord ''w01'' 1 5000, wrongWord ''w02'' 2 5000, wrongWord ''w03'' 3 5000,
      wrongWord ''w04'' 4 5000]"

definition shuffleSettings :: DictationSettings where
  "shuffleSettings = DEFAULT_SETTINGS\<lparr>order := SHUFFLE\<rparr>"

definition drawsExample :: "nat \<Rightarrow> rat" where
  "drawsExample n = (if even n then 3 / 4 else 1 / 4)"

section \<open>Properties of the scheduler\<close>

lemma exampleWord_fields:
  "id_str exampleWord = ''word-7''" "text_str exampleWord = ''harbour''"
  "groupTitle exampleWord = None" "addedAt exampleWord = 1000"
  "lastReviewed exampleWord = Some 5000" "nextReview exampleWord = 2592005000"
  "streak exampleWord = 10" "easeFactor exampleWord = 5 / 2" "interval exampleWord = 30"
  "totalAttempts exampleWord = Some 4" "totalWrong exampleWord = Some 1"
  "lastWrongAt exampleWord = Some 3000"
  by (simp_all add: exampleWord_def)

lemma intervalWord_fields:
  "streak (intervalWord n) = 10" "easeFactor (intervalWord n) = 5 / 2"
  "interval (intervalWord n) = n" "totalAttempts (intervalWord n) = Some 4"
  "totalWrong (intervalWord n) = Some 1" "lastWrongAt (intervalWord n) = Some 3000"
  by (simp_all add: intervalWord_def exampleWord_def)

lemma js_round_13_10: "js_round (of_int n * (13 / 10)) = (13 * n + 5) div 10"
proof -
  have "of_int n * (13 / 10) + 1 / 2 = (of_int (13 * n + 5) :: rat) / of_int 10"
    by simp
  then have "js_round (of_int n * (13 / 10)) = \<lfloor>(of_int (13 * n + 5) :: rat) / of_int 10\<rfloor>"
    by (simp only: js_round_def)
  also have "\<dots> = (13 * n + 5) div 10"
    by (rule floor_divide_of_int_eq)
  finally show ?thesis .
qed

lemma js_round_nearest:
  "of_int (js_round x) - 1 / 2 \<le> x \<and> x < of_int (js_round x) + 1 / 2"
  unfolding js_round_def by linarith

lemma interval_correct:
  "interval (calculateNextReview r True now)
     = (if 14 < interval r then js_round (of_int (interval r) * (13 / 10)) else 14)"
  by (simp add: calculateNextReview_def)

text \<open>
  C1. For every record that satisfies the invariants of the data model (the counters
  \<open>totalAttempts\<close> and \<open>totalWrong\<close> are present; nothing else is needed) and every
  timestamp \<open>now\<close>, a correct outcome gives \<open>streak' = max(streak + 1, 10)\<close>, hence
  \<open>streak' \<ge> 10\<close>; \<open>interval' = round(interval * 1.3)\<close> if \<open>interval > 14\<close> and
  \<open>14\<close> otherwise, where the rounded value is the integer \<open>(13 * interval + 5) div 10\<close>,
  the nearest integer to \<open>interval * 1.3\<close> with a tie going up;
  \<open>easeFactor' = max(1.3, easeFactor + 0.1)\<close>; \<open>totalWrong\<close> and \<open>lastWrongAt\<close>
  unchanged; \<open>totalAttempts' = totalAttempts + 1\<close>; \<open>lastReviewed' = now\<close>; and
  \<open>nextReview' = now + interval'\<close> days, a day being 86400000 ms.
\<close>

theorem applyOutcome_correct:
  assumes "totalAttempts r = Some a" and "totalWrong r = Some w"
  shows "streak (calculateNextReview r True now) = max (streak r + 1) 10
     \<and> 10 \<le> streak (calculateNextReview r True now)
     \<and> interval (calculateNextReview r True now) =
         (if 14 < interval r then (13 * interval r + 5) div 10 else 14)
     \<and> (14 < interval r \<longrightarrow>
          of_int (interval (calculateNextReview r True now)) - 1 / 2
            \<le> (of_int (interval r) :: rat) * (13 / 10)
          \<and> (of_int (interval r) :: rat) * (13 / 10)
            < of_int (interval (calculateNextReview r True now)) + 1 / 2)
     \<and> easeFactor (calculateNextReview r True now) = max (13 / 10) (easeFactor r + 1 / 10)
     \<and> totalWrong (calculateNextReview r True now) = totalWrong r
     \<and> lastWrongAt (calculateNextReview r True now) = lastWrongAt r
     \<and> totalAttempts (calculateNextReview r True now) = Some (a + 1)
     \<and> lastReviewed (calculateNextReview r True now) = Some now
     \<and> nextReview (calculateNextReview r True now) =
         now + interval (calculateNextReview r True now) * 86400000"
proof -
  let ?r = "calculateNextReview r True now"
  have i: "interval ?r = (if 14 < interval r then (13 * interval r + 5) div 10 else 14)"
    by (simp only: interval_correct js_round_13_10)
  have pos: "interval ?r \<noteq> 0"
    unfolding i by (simp split: if_splits) linarith
  have near: "14 < interval r \<longrightarrow>
      of_int (interval ?r) - 1 / 2 \<le> (of_int (interval r) :: rat) * (13 / 10)
      \<and> (of_int (interval r) :: rat) * (13 / 10) < of_int (interval ?r) + 1 / 2"
    using js_round_nearest [of "of_int (interval r) * (13 / 10)"]
    by (simp add: interval_correct)
  have nr: "nextReview ?r = (if interval ?r = 0 then now else now + interval ?r * 86400000)"
    by (simp add: calculateNextReview_def ONE_DAY_def Let_def)
  have rest: "streak ?r = max (streak r + 1) 10" "10 \<le> streak ?r"
    "easeFactor ?r = max (13 / 10) (easeFactor r + 1 / 10)"
    "totalWrong ?r = totalWrong r" "lastWrongAt ?r = lastWrongAt r"
    "totalAttempts ?r = Some (a + 1)" "lastReviewed ?r = Some now"
    using assms by (simp_all add: calculateNextReview_def or0_def)
  from i near rest nr pos show ?thesis
    by simp
qed

theorem applyOutcome_correct_witness:
  "totalAttempts (intervalWord 15) = Some 4 \<and> totalWrong (intervalWord 15) = Some 1
     \<and> streak (calculateNextReview (intervalWord 15) True 6000) = 11
     \<and> interval (calculateNextReview (intervalWord 15) True 6000) = 20
     \<and> interval (calculateNextReview (intervalWord 16) True 6000) = 21
     \<and> interval (calculateNextReview (intervalWord 17) True 6000) = 22
     \<and> interval (calculateNextReview (intervalWord 14) True 6000) = 14
     \<and> easeFactor (calculateNextReview (intervalWord 15) True 6000) = 13 / 5
     \<and> totalWrong (calculateNextReview (intervalWord 15) True 6000) = Some 1
     \<and> lastWrongAt (calculateNextReview (intervalWord 15) True 6000) = Some 3000
     \<and> totalAttempts (calculateNextReview (intervalWord 15) True 6000) = Some 5
     \<and> lastReviewed (calculateNextReview (intervalWord 15) True 6000) = Some 6000
     \<and> nextReview (calculateNextReview (intervalWord 15) True 6000) = 1728006000
     \<and> nextReview (calculateNextReview (intervalWord 17) True 6000) = 1900806000"
  using applyOutcome_correct [of "intervalWord 15" 4 1 6000]
    applyOutcome_correct [of "intervalWord 16" 4 1 6000]
    applyOutcome_correct [of "intervalWord 17" 4 1 6000]
    applyOutcome_correct [of "intervalWord 14" 4 1 6000]
  by (simp add: intervalWord_fields)

text \<open>
  C2. For every such record and every timestamp \<open>now\<close>, an incorrect outcome gives
  \<open>streak' = 0\<close>, \<open>interval' = 0\<close>, \<open>nextReview' = now\<close>,
  \<open>totalWrong' = totalWrong + 1\<close>, \<open>lastWrongAt' = now\<close>,
  \<open>easeFactor' = max(1.3, easeFactor - 0.2)\<close>, \<open>totalAttempts' = totalAttempts + 1\<close>
  and \<open>lastReviewed' = now\<close>.
\<close>

theorem applyOutcome_incorrect:
  assumes "totalAttempts r = Some a" and "totalWrong r = Some w"
  shows "streak (calculateNextReview r False now) = 0
     \<and> interval (calculateNextReview r False now) = 0
     \<and> nextReview (calculateNextReview r False now) = now
     \<and> totalWrong (calculateNextReview r False now) = Some (w + 1)
     \<and> lastWrongAt (calculateNextReview r False now) = Some now
     \<and> easeFactor (calculateNextReview r False now) = max (13 / 10) (easeFactor r - 2 / 10)
     \<and> totalAttempts (calculateNextReview r False now) = Some (a + 1)
     \<and> lastReviewed (calculateNextReview r False now) = Some now"
  using assms by (simp add: calculateNextReview_def or0_def)

theorem applyOutcome_incorrect_witness:
  "totalAttempts exampleWord = Some 4 \<and> totalWrong exampleWord = Some 1
     \<and> streak (calculateNextReview exampleWord False 6000) = 0
     \<and> interval (calculateNextReview exampleWord False 6000) = 0
     \<and> nextReview (calculateNextReview exampleWord False 6000) = 6000
     \<and> totalWrong (calculateNextReview exampleWord False 6000) = Some 2
     \<and> lastWrongAt (calculateNextReview exampleWord False 6000) = Some 6000
     \<and> easeFactor (calculateNextReview exampleWord False 6000) = 23 / 10
     \<and> totalAttempts (calculateNextReview exampleWord False 6000) = Some 5
     \<and> lastReviewed (calculateNextReview exampleWord False 6000) = Some 6000"
  using applyOutcome_incorrect [of exampleWord 4 1 6000]
  by (simp add: exampleWord_fields)

text \<open>
  C3 as stated (intervals 14, 14 and then 18 after three correct outcomes on a fresh
  record) does not hold: the third correct outcome finds \<open>interval = 14\<close>, which is not
  \<open>> 14\<close>, so the interval is set to 14 again and not to \<open>round(14 * 1.3) = 18\<close>.
\<close>

theorem three_correct_counterexample:
  "interval (newWord ''w1'' ''apple'' ''fruit'' 1000) = 0
   \<and> interval (calculateNextReview
        (calculateNextReview
          (calculateNextReview (newWord ''w1'' ''apple'' ''fruit'' 1000) True 2000)
          True 3000)
        True 4000) \<noteq> 18"
  by (simp add: calculateNextReview_def newWord_def or0_def)

text \<open>
  C3 (amended). Starting from a record with \<open>interval = 0\<close>, three consecutive correct
  outcomes, each result fed back as the input of the next call, yield the intervals 14,
  14 and 14.
\<close>

theorem three_correct_intervals:
  assumes "interval r = 0"
  shows "interval (calculateNextReview r True n1) = 14
     \<and> interval (calculateNextReview (calculateNextReview r True n1) True n2) = 14
     \<and> interval (calculateNextReview
          (calculateNextReview (calculateNextReview r True n1) True n2) True n3) = 14"
  using assms by (simp add: calculateNextReview_def)

theorem three_correct_intervals_witness:
  "interval (newWord ''w1'' ''apple'' ''fruit'' 1000) = 0
   \<and> interval (calculateNextReview (newWord ''w1'' ''apple'' ''fruit'' 1000) True 2000) = 14
   \<and> interval (calculateNextReview
        (calculateNextReview (newWord ''w1'' ''apple'' ''fruit'' 1000) True 2000)
        True 3000) = 14
   \<and> interval (calculateNextReview
        (calculateNextReview
          (calculateNextReview (newWord ''w1'' ''apple'' ''fruit'' 1000) True 2000)
          True 3000)
        True 4000) = 14"
  using three_correct_intervals [of "newWord ''w1'' ''apple'' ''fruit'' 1000" 2000 3000 4000]
  by (simp add: newWord_def)

text \<open>
  C10. For every record and both outcomes, \<open>calculateNextReview\<close> returns a record whose
  \<open>id\<close>, \<open>text\<close>, \<open>groupTitle\<close> and \<open>addedAt\<close> are those of the input; the other
  eight fields are the only ones it writes.
\<close>

theorem applyOutcome_frame:
  "id_str (calculateNextReview r isCorrect now) = id_str r
   \<and> text_str (calculateNextReview r isCorrect now) = text_str r
   \<and> groupTitle (calculateNextReview r isCorrect now) = groupTitle r
   \<and> addedAt (calculateNextReview r isCorrect now) = addedAt r"
  by (simp add: calculateNextReview_def Let_def split: prod.splits)

section \<open>Properties of the manual override\<close>

text \<open>
  C5 as stated (both target statuses set \<open>streak\<close>, \<open>interval\<close>, \<open>nextReview\<close> and
  \<open>easeFactor\<close> to values independent of the record's history) does not hold for
  \<open>MASTERED\<close>: that branch does not write \<open>easeFactor\<close>, so two records that differ
  only in \<open>easeFactor\<close> still differ in it after the override.
\<close>

theorem override_counterexample:
  "easeFactor (fst (overrideStatus exampleClock (newWord ''w1'' ''apple'' ''fruit'' 1000)
       MASTERED 0))
     \<noteq> easeFactor (fst (overrideStatus exampleClock
         ((newWord ''w1'' ''apple'' ''fruit'' 1000)\<lparr>easeFactor := 13 / 10\<rparr>) MASTERED 0))"
  by (simp add: overrideStatus_def newWord_def)

lemma updateWords_rel:
  "list_all2
     (\<lambda>v v'. if id_str v = id_str target
        then (\<exists>k. v' = fst (overrideStatus clock v status k)) else v' = v)
     ws (updateWords clock target status ws n)"
proof (induction ws arbitrary: n)
  case Nil
  show ?case by simp
next
  case (Cons w ws)
  show ?case
  proof (cases "id_str w = id_str target")
    case True
    obtain w1 n1 where o: "overrideStatus clock w status n = (w1, n1)"
      by (cases "overrideStatus clock w status n")
    then have "w1 = fst (overrideStatus clock w status n)" by simp
    then have "\<exists>k. w1 = fst (overrideStatus clock w status k)" by blast
    with True o Cons.IH [of n1] show ?thesis by simp
  next
    case False
    with Cons.IH [of n] show ?thesis by simp
  qed
qed

text \<open>
  C5 (amended). For every word record the override to \<open>REVIEW\<close> sets \<open>streak = 0\<close>,
  \<open>interval = 0\<close>, \<open>nextReview\<close> to the clock reading and \<open>easeFactor = 2.5\<close>; the
  override to \<open>MASTERED\<close> sets \<open>streak = 10\<close>, \<open>interval = 30\<close> and \<open>nextReview\<close>
  to the clock reading plus 30 days (2592000000 ms), and leaves \<open>easeFactor\<close> as it
  was. The entry point applies this to every word whose \<open>id\<close> is the target's and
  leaves the other words alone.
\<close>

theorem override_sets_fields:
  "streak (fst (overrideStatus clock w REVIEW n)) = 0
   \<and> interval (fst (overrideStatus clock w REVIEW n)) = 0
   \<and> nextReview (fst (overrideStatus clock w REVIEW n)) = clock n
   \<and> easeFactor (fst (overrideStatus clock w REVIEW n)) = 5 / 2
   \<and> streak (fst (overrideStatus clock w MASTERED n)) = 10
   \<and> interval (fst (overrideStatus clock w MASTERED n)) = 30
   \<and> nextReview (fst (overrideStatus clock w MASTERED n)) = clock n + 2592000000
   \<and> easeFactor (fst (overrideStatus clock w MASTERED n)) = easeFactor w
   \<and> list_all2
       (\<lambda>v v'. if id_str v = id_str target
          then (\<exists>k. v' = fst (overrideStatus clock v status k)) else v' = v)
       (words st) (words (handleUpdateWordStatus st target status clock))"
  using updateWords_rel [of target clock status "words st" 0]
  by (simp add: overrideStatus_def handleUpdateWordStatus_def)

theorem override_sets_fields_witness:
  "map streak (words (handleUpdateWordStatus exampleState exampleWord MASTERED exampleClock))
     = [10, 0]
   \<and> map interval (words (handleUpdateWordStatus exampleState exampleWord MASTERED exampleClock))
     = [30, 0]
   \<and> map nextReview (words (handleUpdateWordStatus exampleState exampleWord MASTERED exampleClock))
     = [2592006000, 1000]
   \<and> map lastReviewed (words (handleUpdateWordStatus exampleState exampleWord MASTERED exampleClock))
     = [Some 6001, None]
   \<and> map easeFactor (words (handleUpdateWordStatus exampleState exampleWord MASTERED exampleClock))
     = [5 / 2, 5 / 2]
   \<and> nextReview (fst (overrideStatus exampleClock exampleWord REVIEW 0)) = 6000
   \<and> easeFactor (fst (overrideStatus exampleClock (exampleWord\<lparr>easeFactor := 13 / 10\<rparr>)
         MASTERED 0)) = 13 / 10"
  using override_sets_fields [of exampleClock exampleWord 0 exampleWord MASTERED exampleState]
    override_sets_fields [of exampleClock "exampleWord\<lparr>easeFactor := 13 / 10\<rparr>" 0]
  by (simp add: exampleState_def exampleWord_def newWord_def exampleClock_def
      handleUpdateWordStatus_def overrideStatus_def)

lemma ease_calculateNextReview: "13 / 10 \<le> easeFactor (calculateNextReview r isCorrect now)"
  by (cases isCorrect) (simp_all add: calculateNextReview_def)

lemma ease_overrideStatus:
  "13 / 10 \<le> easeFactor r \<Longrightarrow> 13 / 10 \<le> easeFactor (fst (overrideStatus clock r status n))"
  by (simp add: overrideStatus_def)

lemma ease_updateWords:
  "\<forall>v \<in> set ws. 13 / 10 \<le> easeFactor v \<Longrightarrow>
     \<forall>v \<in> set (updateWords clock target status ws n). 13 / 10 \<le> easeFactor v"
proof (induction ws arbitrary: n)
  case Nil
  show ?case by simp
next
  case (Cons w ws)
  then have w: "13 / 10 \<le> easeFactor w" and ws: "\<forall>v \<in> set ws. 13 / 10 \<le> easeFactor v"
    by simp_all
  obtain w1 n1 where o: "overrideStatus clock w status n = (w1, n1)"
    by (cases "overrideStatus clock w status n")
  then have "w1 = fst (overrideStatus clock w status n)" by simp
  with ease_overrideStatus [OF w, of clock status n] have w1: "13 / 10 \<le> easeFactor w1"
    by simp
  show ?case
    using w w1 o Cons.IH [OF ws, of n1] Cons.IH [OF ws, of n] by simp
qed

text \<open>
  C8. \<open>easeFactor \<ge> 1.3\<close> is preserved by every operation that changes a word record:
  from a record with \<open>easeFactor \<ge> 1.3\<close>, \<open>calculateNextReview\<close> with either outcome
  and the manual override with either target status give a record with
  \<open>easeFactor \<ge> 1.3\<close>; and if every word of the collection has it, every word of the
  collection that \<open>handleUpdateWordStatus\<close> leaves has it.
\<close>

theorem easeFactor_floor_preserved:
  assumes "13 / 10 \<le> easeFactor r" and "\<forall>v \<in> set (words st). 13 / 10 \<le> easeFactor v"
  shows "13 / 10 \<le> easeFactor (calculateNextReview r isCorrect now)
     \<and> 13 / 10 \<le> easeFactor (fst (overrideStatus clock r status n))
     \<and> (\<forall>v \<in> set (words (handleUpdateWordStatus st target status clock)).
          13 / 10 \<le> easeFactor v)"
  using assms(1) ease_calculateNextReview ease_overrideStatus
    ease_updateWords [OF assms(2), of clock target status 0]
  by (simp add: handleUpdateWordStatus_def)

theorem easeFactor_floor_preserved_witness:
  "13 / 10 \<le> easeFactor exampleWord
   \<and> list_all (\<lambda>v. 13 / 10 \<le> easeFactor v) (words exampleState)
   \<and> 13 / 10 \<le> easeFactor (calculateNextReview exampleWord False 6000)
   \<and> 13 / 10 \<le> easeFactor (fst (overrideStatus exampleClock exampleWord MASTERED 0))
   \<and> list_all (\<lambda>v. 13 / 10 \<le> easeFactor v)
        (words (handleUpdateWordStatus exampleState exampleWord MASTERED exampleClock))"
proof -
  have h1: "13 / 10 \<le> easeFactor exampleWord"
    by (simp add: exampleWord_fields)
  have h2: "\<forall>v \<in> set (words exampleState). 13 / 10 \<le> easeFactor v"
    by (simp add: exampleState_def exampleWord_fields newWord_def)
  show ?thesis
    using h1 h2
      easeFactor_floor_preserved [OF h1 h2, of False 6000 exampleClock MASTERED 0 exampleWord]
    by (simp add: list_all_iff)
qed

section \<open>Properties of the selection\<close>

lemma wrongWord_fields:
  "id_str (wrongWord u n t) = u" "totalWrong (wrongWord u n t) = Some n"
  "lastWrongAt (wrongWord u n t) = Some t"
  by (simp_all add: wrongWord_def newWord_def)

text \<open>
  C6. The all-due selection holds exactly the words of the collection with
  \<open>nextReview \<le> now\<close>: a word of the collection with \<open>nextReview = now\<close> is in it,
  and a word with \<open>nextReview = now + 1\<close> (or any later time) is not.
\<close>

theorem allDue_boundary:
  "(w \<in> set (allDueWords ws now) \<longleftrightarrow> w \<in> set ws \<and> nextReview w \<le> now)
   \<and> (w \<in> set ws \<and> nextReview w = now \<longrightarrow> w \<in> set (allDueWords ws now))
   \<and> (nextReview w = now + 1 \<longrightarrow> w \<notin> set (allDueWords ws now))
   \<and> (now < nextReview w \<longrightarrow> w \<notin> set (allDueWords ws now))"
  by (auto simp: allDueWords_def)

theorem allDue_boundary_witness:
  "dueWord \<in> set [dueWord, laterWord] \<and> nextReview dueWord = 6000
   \<and> nextReview laterWord = 6000 + 1
   \<and> dueWord \<in> set (allDueWords [dueWord, laterWord] 6000)
   \<and> laterWord \<notin> set (allDueWords [dueWord, laterWord] 6000)"
  using allDue_boundary [of dueWord "[dueWord, laterWord]" 6000]
    allDue_boundary [of laterWord "[dueWord, laterWord]" 6000]
  by (simp add: dueWord_def laterWord_def newWord_def)

text \<open>
  C7. With the "only errors" flag set, \<open>handleReviewGroup\<close> restricts the group's words
  to those with \<open>nextReview \<le> now\<close> and starts a session with them; when no word of
  the group qualifies, the selection is empty, the "nothing to review" alert is raised,
  and neither the session words nor the view change, so no session is started.
\<close>

theorem review_group_only_errors:
  "((\<exists>w \<in> set groupWords. nextReview w \<le> now) \<longrightarrow>
      sessionWords (handleReviewGroup st groupWords True now)
        = filter (\<lambda>w. nextReview w \<le> now) groupWords
      \<and> sessionWords (handleReviewGroup st groupWords True now) \<noteq> []
      \<and> view (handleReviewGroup st groupWords True now) = DICTATION
      \<and> alerts (handleReviewGroup st groupWords True now) = alerts st)
   \<and> ((\<forall>w \<in> set groupWords. now < nextReview w) \<longrightarrow>
      filter (\<lambda>w. nextReview w \<le> now) groupWords = []
      \<and> handleReviewGroup st groupWords True now
           = st\<lparr>alerts := alerts st @ [NoDueWordsInGroup]\<rparr>
      \<and> sessionWords (handleReviewGroup st groupWords True now) = sessionWords st
      \<and> view (handleReviewGroup st groupWords True now) = view st)"
proof (intro conjI impI)
  assume "\<exists>w \<in> set groupWords. nextReview w \<le> now"
  then have ne: "filter (\<lambda>w. nextReview w \<le> now) groupWords \<noteq> []"
    by (simp add: filter_empty_conv)
  then show "sessionWords (handleReviewGroup st groupWords True now)
        = filter (\<lambda>w. nextReview w \<le> now) groupWords"
    and "sessionWords (handleReviewGroup st groupWords True now) \<noteq> []"
    and "view (handleReviewGroup st groupWords True now) = DICTATION"
    and "alerts (handleReviewGroup st groupWords True now) = alerts st"
    by (simp_all add: handleReviewGroup_def)
next
  assume "\<forall>w \<in> set groupWords. now < nextReview w"
  then have e: "filter (\<lambda>w. nextReview w \<le> now) groupWords = []"
    by (auto simp: filter_empty_conv)
  then show "filter (\<lambda>w. nextReview w \<le> now) groupWords = []"
    and "handleReviewGroup st groupWords True now = st\<lparr>alerts := alerts st @ [NoDueWordsInGroup]\<rparr>"
    and "sessionWords (handleReviewGroup st groupWords True now) = sessionWords st"
    and "view (handleReviewGroup st groupWords True now) = view st"
    by (simp_all add: handleReviewGroup_def)
qed

theorem review_group_only_errors_witness:
  "nextReview dueWord \<le> 6000
   \<and> sessionWords (handleReviewGroup exampleState [dueWord, laterWord] True 6000) = [dueWord]
   \<and> view (handleReviewGroup exampleState [dueWord, laterWord] True 6000) = DICTATION
   \<and> 6000 < nextReview laterWord
   \<and> alerts (handleReviewGroup exampleState [laterWord] True 6000) = [NoDueWordsInGroup]
   \<and> sessionWords (handleReviewGroup exampleState [laterWord] True 6000) = []
   \<and> view (handleReviewGroup exampleState [laterWord] True 6000) = DASHBOARD"
proof -
  have d: "nextReview dueWord = 6000" and l: "nextReview laterWord = 6001"
    by (simp_all add: dueWord_def laterWord_def newWord_def)
  have h1: "\<exists>w \<in> set [dueWord, laterWord]. nextReview w \<le> 6000"
    by (simp add: d)
  have h2: "\<forall>w \<in> set [laterWord]. 6000 < nextReview w"
    by (simp add: l)
  show ?thesis
    using h1 h2 review_group_only_errors [of "[dueWord, laterWord]" 6000 exampleState]
      review_group_only_errors [of "[laterWord]" 6000 exampleState]
    by (simp add: d l exampleState_def)
qed

subsection \<open>Rounding to a double\<close>

lemma rne_error: "\<bar>of_int (rne x) - x\<bar> \<le> 1 / 2"
proof -
  have lo: "of_int \<lfloor>x\<rfloor> \<le> x" and hi: "x < of_int \<lfloor>x\<rfloor> + 1"
    by linarith+
  show ?thesis
    unfolding rne_def Let_def using lo hi by (auto simp: abs_le_iff)
qed

lemma bitlen_bounds:
  "0 < n \<Longrightarrow> (2::rat) powi (bitlen n - 1) \<le> of_int n \<and> of_int n < (2::rat) powi (bitlen n)"
proof (induction n rule: bitlen.induct)
  case (1 n)
  show ?case
  proof (cases "n div 2 \<le> 0")
    case True
    with 1 have "n = 1" by linarith
    then show ?thesis
      by (simp add: bitlen.simps [of 1] bitlen.simps [of 0])
  next
    case False
    then have pos: "0 < n div 2" by simp
    from 1 have n: "\<not> n \<le> 0" by simp
    let ?b = "bitlen (n div 2)"
    from 1(1) [OF n pos]
    have lo: "(2::rat) powi (?b - 1) \<le> of_int (n div 2)"
      and hi: "of_int (n div 2) < (2::rat) powi ?b" by simp_all
    have b: "bitlen n = 1 + ?b"
      using n by (simp add: bitlen.simps [of n])
    have d1: "(of_int (n div 2) :: rat) * 2 \<le> of_int n"
    proof -
      have "n div 2 * 2 \<le> n" by simp
      then have "(of_int (n div 2 * 2) :: rat) \<le> of_int n"
        by (rule of_int_le_iff [THEN iffD2])
      then show ?thesis by simp
    qed
    have d2: "(of_int n :: rat) \<le> of_int (n div 2) * 2 + 1"
    proof -
      have "n \<le> n div 2 * 2 + 1" by linarith
      then have "(of_int n :: rat) \<le> of_int (n div 2 * 2 + 1)"
        by (rule of_int_le_iff [THEN iffD2])
      then show ?thesis by simp
    qed
    have p1: "(2::rat) powi (1 + ?b - 1) = 2 powi (?b - 1) * 2"
      by (simp add: power_int_diff)
    have p2: "(2::rat) powi (1 + ?b) = 2 powi ?b * 2"
      by (simp add: power_int_add)
    have "(2::rat) powi (1 + ?b - 1) \<le> of_int n"
      unfolding p1 using lo d1 by linarith
    moreover have "of_int n < (2::rat) powi (1 + ?b)"
    proof -
      have "0 \<le> ?b"
      proof (rule ccontr)
        assume "\<not> 0 \<le> ?b"
        then have "?b \<le> -1" by simp
        then have "(2::rat) powi ?b \<le> 2 powi (-1)"
          by (intro power_int_increasing) simp_all
        with hi have "(of_int (n div 2) :: rat) < 1" by simp
        with pos show False by simp
      qed
      then obtain k where k: "?b = int k"
        using nonneg_int_cases by blast
      from hi have "(of_int (n div 2) :: rat) < of_int (2 ^ k)"
        by (simp add: k)
      then have "n div 2 < 2 ^ k"
        by (simp only: of_int_less_iff)
      then have "n div 2 + 1 \<le> 2 ^ k" by simp
      then have "n + 1 \<le> 2 * 2 ^ k" by linarith
      then have "n < 2 ^ (Suc k)" by simp
      then have "(of_int n :: rat) < of_int (2 ^ Suc k)"
        by (simp only: of_int_less_iff)
      then show ?thesis
        by (simp add: k power_int_add)
    qed
    ultimately show ?thesis
      by (simp add: b)
  qed
qed


lemma binade_bounds:
  assumes "x \<noteq> 0"
  shows "2 powi (binade x) \<le> \<bar>x\<bar>" and "\<bar>x\<bar> < 2 powi (binade x + 1)"
proof -
  obtain p q where pq: "quotient_of \<bar>x\<bar> = (p, q)"
    by (cases "quotient_of \<bar>x\<bar>")
  then have q: "0 < q" and x: "\<bar>x\<bar> = of_int p / of_int q"
    by (simp_all add: quotient_of_denom_pos quotient_of_div)
  from assms have "0 < \<bar>x\<bar>" by simp
  with x q have p: "0 < p"
    by (simp add: zero_less_divide_iff)
  let ?d = "bitlen p - bitlen q"
  note bp = bitlen_bounds [OF p] and bq = bitlen_bounds [OF q]
  have qpos: "(0::rat) < of_int q" using q by simp
  have lower: "(2::rat) powi (?d - 1) \<le> \<bar>x\<bar>"
  proof -
    have "(2::rat) powi (?d - 1) * of_int q \<le> 2 powi (?d - 1) * 2 powi (bitlen q)"
      using bq by (intro mult_left_mono) simp_all
    also have "\<dots> = 2 powi (bitlen p - 1)"
      by (simp flip: power_int_add)
    also have "\<dots> \<le> of_int p" using bp by simp
    finally show ?thesis
      unfolding x using qpos by (simp add: pos_le_divide_eq)
  qed
  have upper: "\<bar>x\<bar> < (2::rat) powi (?d + 1)"
  proof -
    have "of_int p < (2::rat) powi (bitlen p)" using bp by simp
    also have "\<dots> = 2 powi (?d + 1) * 2 powi (bitlen q - 1)"
      by (simp flip: power_int_add)
    also have "\<dots> \<le> 2 powi (?d + 1) * of_int q"
      using bq by (intro mult_left_mono) simp_all
    finally show ?thesis
      unfolding x using qpos by (simp add: pos_divide_less_eq)
  qed
  have b: "binade x = (if 2 powi ?d \<le> \<bar>x\<bar> then ?d else ?d - 1)"
    by (simp add: binade_def pq)
  show "2 powi (binade x) \<le> \<bar>x\<bar>"
    using lower by (simp add: b)
  show "\<bar>x\<bar> < 2 powi (binade x + 1)"
    using upper by (simp add: b not_le)
qed

lemma fl64_error: "\<bar>fl64 x - x\<bar> \<le> \<bar>x\<bar> / 2 ^ 53"
proof (cases "x = 0")
  case True
  then show ?thesis by (simp add: fl64_def)
next
  case False
  let ?u = "(2::rat) powi (binade x - 52)"
  have u: "0 < ?u" by simp
  have f: "fl64 x = of_int (rne (x / ?u)) * ?u"
    using False by (simp add: fl64_def Let_def)
  have "\<bar>fl64 x - x\<bar> = \<bar>of_int (rne (x / ?u)) - x / ?u\<bar> * ?u"
  proof -
    have "fl64 x - x = (of_int (rne (x / ?u)) - x / ?u) * ?u"
      using u by (simp add: f field_simps)
    then show ?thesis
      using u by (simp add: abs_mult)
  qed
  also have "\<dots> \<le> 1 / 2 * ?u"
    using rne_error [of "x / ?u"] u by (intro mult_right_mono) simp_all
  also have "\<dots> = 2 powi (binade x) / 2 ^ 53"
    by (simp add: power_int_diff)
  also have "\<dots> \<le> \<bar>x\<bar> / 2 ^ 53"
    using binade_bounds(1) [OF False] by (simp add: divide_right_mono)
  finally show ?thesis .
qed

lemma fl64_pos: "0 < x \<Longrightarrow> 0 < fl64 x"
proof -
  assume x: "0 < x"
  have e: "\<bar>fl64 x - x\<bar> \<le> \<bar>x\<bar> / 2 ^ 53" by (rule fl64_error)
  have "x - fl64 x \<le> \<bar>fl64 x - x\<bar>" by linarith
  with e have "x - fl64 x \<le> \<bar>x\<bar> / 2 ^ 53" by linarith
  moreover have "\<bar>x\<bar> / 2 ^ 53 < x" using x by simp
  ultimately show ?thesis by linarith
qed

lemma fl64_neg: "x < 0 \<Longrightarrow> fl64 x < 0"
proof -
  assume x: "x < 0"
  have e: "\<bar>fl64 x - x\<bar> \<le> \<bar>x\<bar> / 2 ^ 53" by (rule fl64_error)
  have "fl64 x - x \<le> \<bar>fl64 x - x\<bar>" by linarith
  with e have "fl64 x - x \<le> \<bar>x\<bar> / 2 ^ 53" by linarith
  moreover have "\<bar>x\<bar> / 2 ^ 53 < - x" using x by simp
  ultimately show ?thesis by linarith
qed

lemma fl64_zero: "fl64 0 = 0"
  by (simp add: fl64_def)

lemma fl64_le_0_iff: "fl64 x \<le> 0 \<longleftrightarrow> x \<le> 0"
proof (cases "0 < x")
  case True
  with fl64_pos [of x] show ?thesis by simp
next
  case False
  then have "x = 0 \<or> x < 0" by linarith
  then show ?thesis
    using fl64_neg [of x] fl64_zero by auto
qed


lemma fl64_small: "fl64 1 = 1" "fl64 7 = 7" "fl64 10 = 10" "fl64 12 = 12"
  by code_simp+

subsection \<open>The sort\<close>

lemma smartCompare_score:
  "smartCompare now a b = fl64 (reviewScore now b - reviewScore now a)"
  by (simp add: smartCompare_def reviewScore_def Let_def)

lemma smartCompare_le:
  "smartCompare now a b \<le> 0 \<longleftrightarrow> - reviewScore now a \<le> - reviewScore now b"
  by (simp add: smartCompare_score fl64_le_0_iff)

lemma smartCompare_less:
  "smartCompare now a b < 0 \<longleftrightarrow> - reviewScore now a < - reviewScore now b"
proof -
  have "fl64 x < 0 \<longleftrightarrow> x < 0" for x
    using fl64_pos [of x] fl64_neg [of x] fl64_zero
    by (cases "x = 0"; cases "0 < x") (auto simp: not_less)
  then show ?thesis
    by (simp add: smartCompare_score)
qed

lemma mset_take_drop: "mset (take l xs) + mset (drop l xs) = mset xs"
  by (metis append_take_drop_id mset_append)

lemma mset_binaryInsertionSort:
  "mset (fst (binaryInsertionSort cmp run rest s)) = mset run + mset rest"
proof (induction rest arbitrary: run s)
  case Nil
  show ?case by simp
next
  case (Cons p rest)
  obtain l s1 where b: "binarySearch cmp p run 0 (length run) s = (l, s1)"
    by (cases "binarySearch cmp p run 0 (length run) s")
  show ?case
    using b Cons.IH [of "take l run @ p # drop l run" s1] by (simp add: mset_take_drop)
qed

lemma mset_rev_take_drop: "mset (rev (take n a) @ drop n a) = mset a"
  by (simp add: mset_take_drop)

lemma mset_countAndMakeRun: "mset (fst (countAndMakeRun cmp a s)) = mset a"
proof (cases a)
  case Nil
  then show ?thesis by (simp add: countAndMakeRun_def)
next
  case (Cons x0 a1)
  show ?thesis
  proof (cases a1)
    case Nil
    with Cons show ?thesis by (simp add: countAndMakeRun_def)
  next
    case (Cons x1 rest)
    with \<open>a = x0 # a1\<close> have a: "a = x0 # x1 # rest" by simp
    obtain outcome s1 where o: "cmp x1 x0 s = (outcome, s1)"
      by (cases "cmp x1 x0 s")
    obtain n s2 where e: "extendRun cmp (outcome < 0) x1 rest s1 = (n, s2)"
      by (cases "extendRun cmp (outcome < 0) x1 rest s1")
    have "fst (countAndMakeRun cmp a s)
        = (if outcome < 0 then rev (take (2 + n) a) @ drop (2 + n) a else a)"
      unfolding countAndMakeRun_def a using o e by (simp add: Let_def)
    then show ?thesis
      using mset_rev_take_drop [of "2 + n" a] by (simp split: if_splits)
  qed
qed

lemma mset_array_sort: "mset (fst (array_sort cmp a s)) = mset a"
proof (cases "length a < 2")
  case True
  then show ?thesis by (simp add: array_sort_def)
next
  case False
  obtain b r s1 where c: "countAndMakeRun cmp a s = (b, r, s1)"
    by (cases "countAndMakeRun cmp a s") auto
  have b: "mset b = mset a"
    using mset_countAndMakeRun [of cmp a s] c by simp
  have "mset (fst (array_sort cmp a s)) = mset (take r b) + mset (drop r b)"
    using False c by (simp add: array_sort_def mset_binaryInsertionSort)
  also have "\<dots> = mset b"
    by (rule mset_take_drop)
  finally show ?thesis using b by simp
qed

lemma extendRun_ascending:
  fixes k :: "'a \<Rightarrow> 'b::linorder"
  assumes K: "\<And>a b. c a b < 0 \<longleftrightarrow> k a < k b"
  shows "\<exists>n. extendRun (\<lambda>a b s. (c a b, s)) False prev rest s = (n, s)
          \<and> n \<le> length rest \<and> sorted (map k (prev # take n rest))"
proof (induction rest arbitrary: prev)
  case Nil
  show ?case by simp
next
  case (Cons cur rest)
  show ?case
  proof (cases "c cur prev < 0")
    case True
    then show ?thesis by simp
  next
    case False
    with K [of cur prev] have le: "k prev \<le> k cur" by (simp add: not_less)
    from Cons.IH [of cur] obtain n
      where n: "extendRun (\<lambda>a b s. (c a b, s)) False cur rest s = (n, s)"
        "n \<le> length rest" "sorted (map k (cur # take n rest))"
      by blast
    have "extendRun (\<lambda>a b s. (c a b, s)) False prev (cur # rest) s = (Suc n, s)"
      using False n(1) by simp
    moreover have "sorted (map k (prev # take (Suc n) (cur # rest)))"
      using le n(3) by auto
    ultimately show ?thesis
      using n(2) by auto
  qed
qed

lemma extendRun_descending:
  fixes k :: "'a \<Rightarrow> 'b::linorder"
  assumes K: "\<And>a b. c a b < 0 \<longleftrightarrow> k a < k b"
  shows "\<exists>n. extendRun (\<lambda>a b s. (c a b, s)) True prev rest s = (n, s)
          \<and> n \<le> length rest \<and> sorted_wrt (\<lambda>x y. k y < k x) (prev # take n rest)"
proof (induction rest arbitrary: prev)
  case Nil
  show ?case by simp
next
  case (Cons cur rest)
  show ?case
  proof (cases "c cur prev < 0")
    case False
    then show ?thesis by (simp add: not_less)
  next
    case True
    with K [of cur prev] have lt: "k cur < k prev" by simp
    from Cons.IH [of cur] obtain n
      where n: "extendRun (\<lambda>a b s. (c a b, s)) True cur rest s = (n, s)"
        "n \<le> length rest" "sorted_wrt (\<lambda>x y. k y < k x) (cur # take n rest)"
      by blast
    have "extendRun (\<lambda>a b s. (c a b, s)) True prev (cur # rest) s = (Suc n, s)"
      using True n(1) by (simp add: not_le)
    moreover have "sorted_wrt (\<lambda>x y. k y < k x) (prev # take (Suc n) (cur # rest))"
      using lt n(3) by auto
    ultimately show ?thesis
      using n(2) by auto
  qed
qed

lemma descending_rev_sorted:
  fixes k :: "'a \<Rightarrow> 'b::linorder"
  assumes "sorted_wrt (\<lambda>x y. k y < k x) xs"
  shows "sorted (map k (rev xs))"
proof -
  from assms have "sorted_wrt (\<lambda>x y. k y \<le> k x) xs"
    by (rule sorted_wrt_mono_rel [rotated]) simp
  then show ?thesis
    by (simp add: sorted_map sorted_wrt_rev)
qed

lemma descending_filter_rev:
  fixes k :: "'a \<Rightarrow> 'b::linorder"
  assumes "sorted_wrt (\<lambda>x y. k y < k x) xs"
  shows "filter (\<lambda>x. k x = v) (rev xs) = filter (\<lambda>x. k x = v) xs"
  using assms
proof (induction xs)
  case Nil
  show ?case by simp
next
  case (Cons x xs)
  then have below: "\<forall>y \<in> set xs. k y < k x" and rest: "sorted_wrt (\<lambda>x y. k y < k x) xs"
    by simp_all
  show ?case
  proof (cases "k x = v")
    case True
    with below have "filter (\<lambda>x. k x = v) xs = []"
      by (auto simp: filter_empty_conv)
    with True Cons.IH [OF rest] show ?thesis by simp
  next
    case False
    with Cons.IH [OF rest] show ?thesis by simp
  qed
qed


lemma binarySearch_key:
  fixes k :: "'a \<Rightarrow> 'b::linorder"
  assumes K: "\<And>a b. c a b < 0 \<longleftrightarrow> k a < k b"
    and srt: "sorted (map k a)"
  shows "left \<le> right \<Longrightarrow> right \<le> length a \<Longrightarrow>
     \<forall>i<left. k (a ! i) \<le> k p \<Longrightarrow>
     \<forall>i. right \<le> i \<and> i < length a \<longrightarrow> k p < k (a ! i) \<Longrightarrow>
     \<exists>l. binarySearch (\<lambda>a b s. (c a b, s)) p a left right s = (l, s) \<and> l \<le> length a
       \<and> (\<forall>i<l. k (a ! i) \<le> k p)
       \<and> (\<forall>i. l \<le> i \<and> i < length a \<longrightarrow> k p < k (a ! i))"
proof (induction "right - left" arbitrary: left right rule: less_induct)
  case less
  show ?case
  proof (cases "left < right")
    case False
    with less.prems(1) have eq: "left = right" by simp
    have "binarySearch (\<lambda>a b s. (c a b, s)) p a left right s = (left, s)"
      using False by (simp add: binarySearch.simps)
    then show ?thesis
      using less.prems eq by auto
  next
    case True
    define mid where "mid = left + (right - left) div 2"
    have mid: "left \<le> mid" "mid < right"
      using True by (simp_all add: mid_def)
    then have midlen: "mid < length a"
      using less.prems(2) by simp
    show ?thesis
    proof (cases "c p (a ! mid) < 0")
      case lt: True
      with K [of p "a ! mid"] have pm: "k p < k (a ! mid)" by simp
      have step: "binarySearch (\<lambda>a b s. (c a b, s)) p a left right s
          = binarySearch (\<lambda>a b s. (c a b, s)) p a left mid s"
        using True lt
        by (simp add: binarySearch.simps [of _ p a left right s] mid_def Let_def)
      have above: "\<forall>i. mid \<le> i \<and> i < length a \<longrightarrow> k p < k (a ! i)"
      proof (intro allI impI)
        fix i assume i: "mid \<le> i \<and> i < length a"
        then have "map k a ! mid \<le> map k a ! i"
          using srt by (intro sorted_nth_mono) simp_all
        then have "k (a ! mid) \<le> k (a ! i)"
          using i midlen by simp
        with pm show "k p < k (a ! i)" by simp
      qed
      have "mid - left < right - left" using mid by simp
      from less.hyps [OF this mid(1) _ less.prems(3) above] midlen
      show ?thesis unfolding step by simp
    next
      case ge: False
      with K [of p "a ! mid"] have pm: "k (a ! mid) \<le> k p" by (simp add: not_less)
      have step: "binarySearch (\<lambda>a b s. (c a b, s)) p a left right s
          = binarySearch (\<lambda>a b s. (c a b, s)) p a (mid + 1) right s"
        using True ge
        by (simp add: binarySearch.simps [of _ p a left right s] mid_def Let_def)
      have below: "\<forall>i<mid + 1. k (a ! i) \<le> k p"
      proof (intro allI impI)
        fix i assume i: "i < mid + 1"
        then have "map k a ! i \<le> map k a ! mid"
          using srt midlen by (intro sorted_nth_mono) simp_all
        then have "k (a ! i) \<le> k (a ! mid)"
          using i midlen by simp
        with pm show "k (a ! i) \<le> k p" by simp
      qed
      have "right - (mid + 1) < right - left" using mid by simp
      from less.hyps [OF this _ less.prems(2) below less.prems(4)] mid
      show ?thesis unfolding step by simp
    qed
  qed
qed

lemma insert_at_key:
  fixes k :: "'a \<Rightarrow> 'b::linorder"
  assumes srt: "sorted (map k a)" and l: "l \<le> length a"
    and lo: "\<forall>i<l. k (a ! i) \<le> k p"
    and hi: "\<forall>i. l \<le> i \<and> i < length a \<longrightarrow> k p < k (a ! i)"
  shows "sorted (map k (take l a @ p # drop l a))"
    and "filter (\<lambda>x. k x = v) (take l a @ p # drop l a) = filter (\<lambda>x. k x = v) (a @ [p])"
proof -
  have t: "\<forall>x \<in> set (take l a). k x \<le> k p"
  proof
    fix x assume "x \<in> set (take l a)"
    then obtain i where "i < length (take l a)" "take l a ! i = x"
      by (auto simp: in_set_conv_nth)
    then have "i < l" "a ! i = x" by simp_all
    with lo show "k x \<le> k p" by blast
  qed
  have d: "\<forall>x \<in> set (drop l a). k p < k x"
  proof
    fix x assume "x \<in> set (drop l a)"
    then obtain j where j: "j < length (drop l a)" "drop l a ! j = x"
      by (auto simp: in_set_conv_nth)
    then have "l + j < length a" "a ! (l + j) = x" using l by simp_all
    with hi [rule_format, of "l + j"] show "k p < k x" by simp
  qed
  have "sorted (map k (take l a @ drop l a))" using srt by simp
  then have st: "sorted (map k (take l a))" and sd: "sorted (map k (drop l a))"
    by (simp_all only: map_append sorted_append)
  have cross: "\<forall>x \<in> set (take l a). \<forall>y \<in> set (drop l a). k x \<le> k y"
    using t d by (meson le_less_trans less_imp_le)
  have dle: "\<forall>x \<in> set (drop l a). k p \<le> k x"
    using d by (simp add: less_imp_le)
  show "sorted (map k (take l a @ p # drop l a))"
    using st sd t dle cross by (simp add: sorted_append)
  have split: "filter (\<lambda>x. k x = v) a
      = filter (\<lambda>x. k x = v) (take l a) @ filter (\<lambda>x. k x = v) (drop l a)"
    by (metis append_take_drop_id filter_append)
  show "filter (\<lambda>x. k x = v) (take l a @ p # drop l a) = filter (\<lambda>x. k x = v) (a @ [p])"
  proof (cases "k p = v")
    case True
    with d have "filter (\<lambda>x. k x = v) (drop l a) = []"
      by (auto simp: filter_empty_conv)
    with True split show ?thesis by simp
  next
    case False
    with split show ?thesis by simp
  qed
qed

lemma binaryInsertionSort_key:
  fixes k :: "'a \<Rightarrow> 'b::linorder"
  assumes K: "\<And>a b. c a b < 0 \<longleftrightarrow> k a < k b"
  shows "sorted (map k run) \<Longrightarrow>
     \<exists>r. binaryInsertionSort (\<lambda>a b s. (c a b, s)) run rest s = (r, s) \<and> sorted (map k r)
       \<and> (\<forall>v. filter (\<lambda>x. k x = v) r = filter (\<lambda>x. k x = v) (run @ rest))"
proof (induction rest arbitrary: run)
  case Nil
  then show ?case by simp
next
  case (Cons p rest)
  have "\<exists>l. binarySearch (\<lambda>a b s. (c a b, s)) p run 0 (length run) s = (l, s)
      \<and> l \<le> length run \<and> (\<forall>i<l. k (run ! i) \<le> k p)
      \<and> (\<forall>i. l \<le> i \<and> i < length run \<longrightarrow> k p < k (run ! i))"
    by (rule binarySearch_key [where c = c and k = k, OF K Cons.prems]) auto
  then obtain l where l: "binarySearch (\<lambda>a b s. (c a b, s)) p run 0 (length run) s = (l, s)"
    "l \<le> length run" "\<forall>i<l. k (run ! i) \<le> k p"
    "\<forall>i. l \<le> i \<and> i < length run \<longrightarrow> k p < k (run ! i)"
    by blast
  let ?run = "take l run @ p # drop l run"
  note ins = insert_at_key [OF Cons.prems l(2) l(3) l(4)]
  from Cons.IH [OF ins(1)] obtain r
    where r: "binaryInsertionSort (\<lambda>a b s. (c a b, s)) ?run rest s = (r, s)"
      "sorted (map k r)"
      "\<forall>v. filter (\<lambda>x. k x = v) r = filter (\<lambda>x. k x = v) (?run @ rest)"
    by blast
  have "binaryInsertionSort (\<lambda>a b s. (c a b, s)) run (p # rest) s = (r, s)"
    using l(1) r(1) by simp
  moreover have "\<forall>v. filter (\<lambda>x. k x = v) r = filter (\<lambda>x. k x = v) (run @ p # rest)"
  proof
    fix v
    have "filter (\<lambda>x. k x = v) r
        = filter (\<lambda>x. k x = v) ?run @ filter (\<lambda>x. k x = v) rest"
      using r(3) by simp
    also have "\<dots> = filter (\<lambda>x. k x = v) (run @ [p]) @ filter (\<lambda>x. k x = v) rest"
      by (simp only: ins(2))
    finally show "filter (\<lambda>x. k x = v) r = filter (\<lambda>x. k x = v) (run @ p # rest)"
      by simp
  qed
  ultimately show ?case
    using r(2) by blast
qed

lemma countAndMakeRun_key:
  fixes k :: "'a \<Rightarrow> 'b::linorder"
  assumes K: "\<And>a b. c a b < 0 \<longleftrightarrow> k a < k b" and len: "2 \<le> length a"
  shows "\<exists>b r. countAndMakeRun (\<lambda>a b s. (c a b, s)) a s = (b, r, s)
       \<and> sorted (map k (take r b)) \<and> drop r b = drop r a
       \<and> (\<forall>v. filter (\<lambda>x. k x = v) (take r b) = filter (\<lambda>x. k x = v) (take r a))"
proof -
  from len obtain x0 x1 rest where a: "a = x0 # x1 # rest"
    by (cases a; cases "tl a") auto
  show ?thesis
  proof (cases "c x1 x0 < 0")
    case True
    with K [of x1 x0] have lt: "k x1 < k x0" by simp
    from extendRun_descending [where c = c and k = k and prev = x1 and rest = rest and s = s, OF K] obtain n
      where n: "extendRun (\<lambda>a b s. (c a b, s)) True x1 rest s = (n, s)" "n \<le> length rest"
        "sorted_wrt (\<lambda>x y. k y < k x) (x1 # take n rest)"
      by blast
    let ?r = "2 + n"
    have tk: "take ?r a = x0 # x1 # take n rest"
      by (simp add: a)
    have desc: "sorted_wrt (\<lambda>x y. k y < k x) (take ?r a)"
      unfolding tk using lt n(3) by auto
    have lr: "length (rev (take ?r a)) = ?r"
      using n(2) by (simp add: a)
    have res: "countAndMakeRun (\<lambda>a b s. (c a b, s)) a s
        = (rev (take ?r a) @ drop ?r a, ?r, s)"
      using True n(1) by (simp add: countAndMakeRun_def a Let_def)
    have t: "take ?r (rev (take ?r a) @ drop ?r a) = rev (take ?r a)"
      using lr by (metis append_eq_conv_conj)
    have d: "drop ?r (rev (take ?r a) @ drop ?r a) = drop ?r a"
      using lr by (metis append_eq_conv_conj)
    have "sorted (map k (take ?r (rev (take ?r a) @ drop ?r a)))"
      unfolding t by (rule descending_rev_sorted [OF desc])
    moreover have "\<forall>v. filter (\<lambda>x. k x = v) (take ?r (rev (take ?r a) @ drop ?r a))
        = filter (\<lambda>x. k x = v) (take ?r a)"
      unfolding t using descending_filter_rev [OF desc] by blast
    ultimately show ?thesis
      using res d by blast
  next
    case False
    with K [of x1 x0] have le: "k x0 \<le> k x1" by (simp add: not_less)
    from extendRun_ascending [where c = c and k = k and prev = x1 and rest = rest and s = s, OF K] obtain n
      where n: "extendRun (\<lambda>a b s. (c a b, s)) False x1 rest s = (n, s)" "n \<le> length rest"
        "sorted (map k (x1 # take n rest))"
      by blast
    let ?r = "2 + n"
    have tk: "take ?r a = x0 # x1 # take n rest"
      by (simp add: a)
    have asc: "sorted (map k (take ?r a))"
      unfolding tk using le n(3) by auto
    have res: "countAndMakeRun (\<lambda>a b s. (c a b, s)) a s = (a, ?r, s)"
      using False n(1) by (simp add: countAndMakeRun_def a Let_def)
    show ?thesis
      using res asc by simp
  qed
qed

lemma array_sort_key:
  fixes k :: "'a \<Rightarrow> 'b::linorder"
  assumes K: "\<And>a b. c a b < 0 \<longleftrightarrow> k a < k b"
  shows "array_sort (\<lambda>a b s. (c a b, s)) a s = (sort_key k a, s)"
proof (cases "length a < 2")
  case True
  then have "length (map k a) \<le> 1" by simp
  then have "sorted (map k a)" by (rule sorted01)
  then have "sort_key k a = a" by (rule sort_key_id_if_sorted)
  with True show ?thesis by (simp add: array_sort_def)
next
  case False
  then have len: "2 \<le> length a" by simp
  from countAndMakeRun_key [where c = c and k = k and s = s, OF K len] obtain b r
    where c: "countAndMakeRun (\<lambda>a b s. (c a b, s)) a s = (b, r, s)"
      and sr: "sorted (map k (take r b))" and dr: "drop r b = drop r a"
      and fr: "\<forall>v. filter (\<lambda>x. k x = v) (take r b) = filter (\<lambda>x. k x = v) (take r a)"
    by blast
  from binaryInsertionSort_key [where c = c and k = k and rest = "drop r b" and s = s, OF K sr] obtain res
    where b: "binaryInsertionSort (\<lambda>a b s. (c a b, s)) (take r b) (drop r b) s = (res, s)"
      and sres: "sorted (map k res)"
      and fres: "\<forall>v. filter (\<lambda>x. k x = v) res = filter (\<lambda>x. k x = v) (take r b @ drop r b)"
    by blast
  have as: "array_sort (\<lambda>a b s. (c a b, s)) a s = (res, s)"
    using False c b by (simp add: array_sort_def)
  have stable: "filter (\<lambda>x. k x = v) res = filter (\<lambda>x. k x = v) a" for v
  proof -
    have "filter (\<lambda>x. k x = v) res = filter (\<lambda>x. k x = v) (take r b @ drop r b)"
      using fres by blast
    also have "\<dots>
        = filter (\<lambda>x. k x = v) (take r b) @ filter (\<lambda>x. k x = v) (drop r b)"
      by (rule filter_append)
    also have "\<dots> = filter (\<lambda>x. k x = v) (take r a) @ filter (\<lambda>x. k x = v) (drop r a)"
      using fr dr by simp
    also have "\<dots> = filter (\<lambda>x. k x = v) a"
      by (metis append_take_drop_id filter_append)
    finally show ?thesis .
  qed
  have "mset res = mset a"
    using mset_array_sort [of "\<lambda>a b s. (c a b, s)" a s] as by simp
  moreover have "filter (\<lambda>x. k y = k x) res = filter (\<lambda>x. k y = k x) a" for y
    using stable [of "k y"] by (simp add: eq_commute)
  ultimately have "sort_key k a = res"
    using sres by (intro properties_for_sort_key) simp_all
  with as show ?thesis by simp
qed

lemma array_sort_unique:
  fixes k :: "'a \<Rightarrow> 'b::linorder"
  assumes K: "\<And>a b. c a b < 0 \<longleftrightarrow> k a < k b"
    and "mset ys = mset xs" and "sorted (map k ys)"
    and "\<And>v. filter (\<lambda>x. k x = v) ys = filter (\<lambda>x. k x = v) xs"
  shows "fst (array_sort (\<lambda>a b s. (c a b, s)) xs s) = ys"
proof -
  have "filter (\<lambda>x. k y = k x) ys = filter (\<lambda>x. k y = k x) xs" for y
    using assms(4) [of "k y"] by (simp add: eq_commute)
  then have "sort_key k xs = ys"
    using assms(2,3) by (intro properties_for_sort_key) simp_all
  then show ?thesis
    by (simp add: array_sort_key [where c = c and k = k, OF K])
qed

lemma sortedCandidates_sort_key:
  "sortedCandidates now ws = sort_key (\<lambda>w. - reviewScore now w) (smartCandidates ws)"
  unfolding sortedCandidates_def
  by (simp add: array_sort_key
      [where c = "smartCompare now" and k = "\<lambda>w. - reviewScore now w", OF smartCompare_less])

lemma mset_sortedCandidates: "mset (sortedCandidates now ws) = mset (smartCandidates ws)"
  by (simp add: sortedCandidates_sort_key)

lemma sorted_sortedCandidates:
  "sorted_wrt (\<lambda>a b. reviewScore now b \<le> reviewScore now a) (sortedCandidates now ws)"
proof -
  have "sorted (map (\<lambda>w. - reviewScore now w) (sortedCandidates now ws))"
    by (simp add: sortedCandidates_sort_key)
  then show ?thesis
    by (simp add: sorted_map)
qed

lemma stable_sortedCandidates:
  "filter (\<lambda>w. reviewScore now w = c) (sortedCandidates now ws)
     = filter (\<lambda>w. reviewScore now w = c) (smartCandidates ws)"
  using sort_key_stable [of "\<lambda>w. - reviewScore now w" "- c" "smartCandidates ws"]
  by (simp add: sortedCandidates_sort_key)

lemma sorted_wrt_take_drop:
  assumes "sorted_wrt R xs" and "a \<in> set (take n xs)" and "b \<in> set (drop n xs)"
  shows "R a b"
proof -
  from assms(1) have "sorted_wrt R (take n xs @ drop n xs)"
    by simp
  then show "R a b"
    using assms(2,3) unfolding sorted_wrt_append by blast
qed

lemma smartSelected_take:
  "0 \<le> maxReviewBatchSize cfg \<Longrightarrow>
     smartSelected now cfg ws
       = take (nat (if maxReviewBatchSize cfg = 0 then 10 else maxReviewBatchSize cfg))
           (sortedCandidates now ws)"
  by (simp add: smartSelected_def smartLimit_def slice0_def)

lemma reviewScore_error:
  assumes "lastWrongAt w = Some t" and "t \<noteq> 0"
  shows "\<bar>reviewScore now w
            - (of_int (or0 (totalWrong w)) * 2 + of_int (now - t) / 86400000)\<bar>
          \<le> (\<bar>of_int (or0 (totalWrong w))\<bar> * 2 + \<bar>of_int (now - t)\<bar> / 86400000) / 2 ^ 51"
proof -
  define a :: rat where "a = of_int (or0 (totalWrong w)) * 2"
  define d :: rat where "d = of_int (now - t) / 86400000"
  define d' where "d' = fl64 d"
  define s where "s = a + d'"
  have score: "reviewScore now w = fl64 s"
    using assms by (simp add: reviewScore_def timeSince_def ONE_DAY_def s_def a_def d'_def d_def)
  have e1: "\<bar>d' - d\<bar> \<le> \<bar>d\<bar> / 2 ^ 53"
    unfolding d'_def by (rule fl64_error)
  have e2: "\<bar>fl64 s - s\<bar> \<le> \<bar>s\<bar> / 2 ^ 53"
    by (rule fl64_error)
  have s1: "\<bar>s\<bar> \<le> \<bar>a\<bar> + \<bar>d\<bar> + \<bar>d' - d\<bar>"
    unfolding s_def by linarith
  have "\<bar>fl64 s - (a + d)\<bar> \<le> \<bar>fl64 s - s\<bar> + \<bar>d' - d\<bar>"
    unfolding s_def by linarith
  also have "\<dots> \<le> (\<bar>a\<bar> + \<bar>d\<bar> + \<bar>d\<bar> / 2 ^ 53) / 2 ^ 53 + \<bar>d\<bar> / 2 ^ 53"
  proof -
    from s1 e1 have "\<bar>s\<bar> \<le> \<bar>a\<bar> + \<bar>d\<bar> + \<bar>d\<bar> / 2 ^ 53" by linarith
    then have "\<bar>s\<bar> / 2 ^ 53 \<le> (\<bar>a\<bar> + \<bar>d\<bar> + \<bar>d\<bar> / 2 ^ 53) / 2 ^ 53"
      by (simp add: divide_right_mono)
    with e1 e2 show ?thesis by linarith
  qed
  also have "\<dots> \<le> (\<bar>a\<bar> + \<bar>d\<bar>) / 2 ^ 51"
  proof -
    have "0 \<le> \<bar>a\<bar>" "0 \<le> \<bar>d\<bar>" by simp_all
    then show ?thesis by (simp add: field_simps)
  qed
  finally have "\<bar>fl64 s - (a + d)\<bar> \<le> (\<bar>a\<bar> + \<bar>d\<bar>) / 2 ^ 51" .
  then show ?thesis
    by (simp add: score a_def d_def abs_mult)
qed

lemma reviewScore_undated:
  assumes "lastWrongAt w = None"
  shows "\<bar>reviewScore now w - of_int (or0 (totalWrong w)) * 2\<bar>
          \<le> \<bar>of_int (or0 (totalWrong w))\<bar> * 2 / 2 ^ 53"
proof -
  have "reviewScore now w = fl64 (of_int (or0 (totalWrong w)) * 2)"
    using assms by (simp add: reviewScore_def timeSince_def fl64_zero)
  then show ?thesis
    using fl64_error [of "of_int (or0 (totalWrong w)) * 2"] by (simp add: abs_mult)
qed

lemma pair_scores:
  assumes "totalWrong A = Some 3" and "lastWrongAt A = Some (now - 86400000)"
    and "totalWrong B = Some 1" and "lastWrongAt B = Some (now - 864000000)"
    and "now \<noteq> 86400000" and "now \<noteq> 864000000"
  shows "reviewScore now A = 7" and "reviewScore now B = 12"
  using assms by (simp_all add: reviewScore_def timeSince_def or0_def ONE_DAY_def fl64_small)

lemma pair_sorted:
  assumes "totalWrong A = Some 3" and "lastWrongAt A = Some (now - 86400000)"
    and "totalWrong B = Some 1" and "lastWrongAt B = Some (now - 864000000)"
    and "now \<noteq> 86400000" and "now \<noteq> 864000000"
  shows "sortedCandidates now [A, B] = [B, A]"
  using assms pair_scores [OF assms]
  by (simp add: sortedCandidates_sort_key smartCandidates_def or0_def)

lemma handleSmartReview_session:
  assumes "smartCandidates (words st) \<noteq> []"
  shows "handleSmartReview st now =
     st\<lparr>sessionWords := smartSelected now (settings st) (words st), view := DICTATION\<rparr>"
  using assms by (simp add: handleSmartReview_def Let_def)

lemma nearTie_scores:
  "reviewScore 1700000000000 nearTieA = 5370691939361331 / 281474976710656"
  "reviewScore 1700000000000 nearTieB = 1342672984840333 / 70368744177664"
  "reviewScore 1700000000000 undatedWord = 6"
  by code_simp+

lemma nearTie_sorted:
  "sortedCandidates 1700000000000 [nearTieA, nearTieB] = [nearTieB, nearTieA]"
  by code_simp

text \<open>
  C4. Smart review selects exactly the words with \<open>totalWrong > 0\<close>, whatever their due
  date. The comparator orders two words by the score
  \<open>totalWrong * 2 + (now - lastWrongAt) / ONE_DAY\<close>, computed in doubles: for a word
  with a recorded \<open>lastWrongAt\<close> (the field is written as \<open>Date.now()\<close> or \<open>null\<close>,
  never as \<open>0\<close>) the score is that value with \<open>ONE_DAY\<close> = 86400000 ms, up to the
  rounding of the two operations, and for a word without \<open>lastWrongAt\<close> it is
  \<open>totalWrong * 2\<close>. The candidates are sorted by descending score, words
  with the same score staying in input order, and the list is cut to the batch size of
  the settings (10 when the setting is \<open>0\<close>): no word left out scores higher than a
  selected one, and with batch size 10 and 15 candidates exactly 10 are selected. When
  there is a candidate the session starts with the selection. For A (\<open>totalWrong = 3\<close>,
  \<open>lastWrongAt\<close> one day ago) and B (\<open>totalWrong = 1\<close>, \<open>lastWrongAt\<close> ten days
  ago) the scores are 7 and 12 and B sorts before A.
\<close>

theorem smart_review_selection:
  "set (smartCandidates ws) = {w \<in> set ws. 0 < or0 (totalWrong w)}
   \<and> (\<forall>a b. (smartCompare now a b \<le> 0 \<longleftrightarrow> reviewScore now b \<le> reviewScore now a))
   \<and> (\<forall>w t. lastWrongAt w = Some t \<and> t \<noteq> 0 \<longrightarrow>
         \<bar>reviewScore now w
             - (of_int (or0 (totalWrong w)) * 2 + of_int (now - t) / 86400000)\<bar>
           \<le> (\<bar>of_int (or0 (totalWrong w))\<bar> * 2 + \<bar>of_int (now - t)\<bar> / 86400000) / 2 ^ 51)
   \<and> (\<forall>w. lastWrongAt w = None \<longrightarrow>
         \<bar>reviewScore now w - of_int (or0 (totalWrong w)) * 2\<bar>
           \<le> \<bar>of_int (or0 (totalWrong w))\<bar> * 2 / 2 ^ 53)
   \<and> mset (sortedCandidates now ws) = mset (smartCandidates ws)
   \<and> sorted_wrt (\<lambda>a b. reviewScore now b \<le> reviewScore now a) (sortedCandidates now ws)
   \<and> (\<forall>c. filter (\<lambda>w. reviewScore now w = c) (sortedCandidates now ws)
           = filter (\<lambda>w. reviewScore now w = c) (smartCandidates ws))
   \<and> (0 \<le> maxReviewBatchSize cfg \<longrightarrow>
         smartSelected now cfg ws
           = take (nat (if maxReviewBatchSize cfg = 0 then 10 else maxReviewBatchSize cfg))
               (sortedCandidates now ws)
         \<and> (\<forall>a \<in> set (smartSelected now cfg ws).
            \<forall>b \<in> set (drop (nat (if maxReviewBatchSize cfg = 0 then 10
                                    else maxReviewBatchSize cfg))
                          (sortedCandidates now ws)).
              reviewScore now b \<le> reviewScore now a))
   \<and> (length (smartCandidates ws) = 15 \<and> maxReviewBatchSize cfg = 10 \<longrightarrow>
         length (smartSelected now cfg ws) = 10)
   \<and> (smartCandidates (words st) \<noteq> [] \<longrightarrow>
         sessionWords (handleSmartReview st now) = smartSelected now (settings st) (words st)
         \<and> view (handleSmartReview st now) = DICTATION)
   \<and> (\<forall>A B. totalWrong A = Some 3 \<and> lastWrongAt A = Some (now - 86400000)
         \<and> totalWrong B = Some 1 \<and> lastWrongAt B = Some (now - 864000000)
         \<and> now \<noteq> 86400000 \<and> now \<noteq> 864000000
        \<longrightarrow> reviewScore now A = 7 \<and> reviewScore now B = 12
          \<and> sortedCandidates now [A, B] = [B, A])"
proof -
  let ?sorted = "sortedCandidates now ws"
  let ?limit = "nat (if maxReviewBatchSize cfg = 0 then 10 else maxReviewBatchSize cfg)"
  have c1: "set (smartCandidates ws) = {w \<in> set ws. 0 < or0 (totalWrong w)}"
    by (auto simp: smartCandidates_def)
  have c2: "\<forall>a b. (smartCompare now a b \<le> 0 \<longleftrightarrow> reviewScore now b \<le> reviewScore now a)"
    by (simp add: smartCompare_le)
  have c3: "\<forall>w t. lastWrongAt w = Some t \<and> t \<noteq> 0 \<longrightarrow>
         \<bar>reviewScore now w
             - (of_int (or0 (totalWrong w)) * 2 + of_int (now - t) / 86400000)\<bar>
           \<le> (\<bar>of_int (or0 (totalWrong w))\<bar> * 2 + \<bar>of_int (now - t)\<bar> / 86400000) / 2 ^ 51"
    using reviewScore_error by blast
  have c3n: "\<forall>w. lastWrongAt w = None \<longrightarrow>
         \<bar>reviewScore now w - of_int (or0 (totalWrong w)) * 2\<bar>
           \<le> \<bar>of_int (or0 (totalWrong w))\<bar> * 2 / 2 ^ 53"
    using reviewScore_undated by blast
  have c4: "mset ?sorted = mset (smartCandidates ws)"
    by (rule mset_sortedCandidates)
  have c5: "sorted_wrt (\<lambda>a b. reviewScore now b \<le> reviewScore now a) ?sorted"
    by (rule sorted_sortedCandidates)
  have c6: "\<forall>c. filter (\<lambda>w. reviewScore now w = c) ?sorted
      = filter (\<lambda>w. reviewScore now w = c) (smartCandidates ws)"
    by (simp add: stable_sortedCandidates)
  have c7: "0 \<le> maxReviewBatchSize cfg \<longrightarrow>
         smartSelected now cfg ws = take ?limit ?sorted
         \<and> (\<forall>a \<in> set (smartSelected now cfg ws). \<forall>b \<in> set (drop ?limit ?sorted).
              reviewScore now b \<le> reviewScore now a)"
  proof
    assume h: "0 \<le> maxReviewBatchSize cfg"
    have sel: "smartSelected now cfg ws = take ?limit ?sorted"
      by (rule smartSelected_take [OF h])
    have "\<forall>a \<in> set (take ?limit ?sorted). \<forall>b \<in> set (drop ?limit ?sorted).
        reviewScore now b \<le> reviewScore now a"
      using sorted_wrt_take_drop [OF c5] by blast
    with sel show "smartSelected now cfg ws = take ?limit ?sorted
         \<and> (\<forall>a \<in> set (smartSelected now cfg ws). \<forall>b \<in> set (drop ?limit ?sorted).
              reviewScore now b \<le> reviewScore now a)"
      by simp
  qed
  have c8: "length (smartCandidates ws) = 15 \<and> maxReviewBatchSize cfg = 10 \<longrightarrow>
         length (smartSelected now cfg ws) = 10"
  proof
    assume h: "length (smartCandidates ws) = 15 \<and> maxReviewBatchSize cfg = 10"
    have "length ?sorted = length (smartCandidates ws)"
      using c4 by (rule mset_eq_length)
    with h show "length (smartSelected now cfg ws) = 10"
      by (simp add: smartSelected_take)
  qed
  have c9: "smartCandidates (words st) \<noteq> [] \<longrightarrow>
         sessionWords (handleSmartReview st now) = smartSelected now (settings st) (words st)
         \<and> view (handleSmartReview st now) = DICTATION"
    by (simp add: handleSmartReview_session)
  have c10: "\<forall>A B. totalWrong A = Some 3 \<and> lastWrongAt A = Some (now - 86400000)
         \<and> totalWrong B = Some 1 \<and> lastWrongAt B = Some (now - 864000000)
         \<and> now \<noteq> 86400000 \<and> now \<noteq> 864000000
        \<longrightarrow> reviewScore now A = 7 \<and> reviewScore now B = 12
          \<and> sortedCandidates now [A, B] = [B, A]"
    using pair_scores pair_sorted by metis
  from c1 c2 c3 c3n c4 c5 c6 c7 c8 c9 c10 show ?thesis
    by (intro conjI)
qed

theorem smart_review_selection_witness:
  "length (smartCandidates (words bigState)) = 15
   \<and> maxReviewBatchSize (settings bigState) = 10
   \<and> length (smartSelected 6000 (settings bigState) (words bigState)) = 10
   \<and> sessionWords (handleSmartReview bigState 6000)
       = smartSelected 6000 (settings bigState) (words bigState)
   \<and> view (handleSmartReview bigState 6000) = DICTATION
   \<and> reviewScore 1700000000000 (wrongWord ''A'' 3 (1700000000000 - 86400000)) = 7
   \<and> reviewScore 1700000000000 (wrongWord ''B'' 1 (1700000000000 - 864000000)) = 12
   \<and> sortedCandidates 1700000000000 (words (pairState 1700000000000))
       = [wrongWord ''B'' 1 (1700000000000 - 864000000),
          wrongWord ''A'' 3 (1700000000000 - 86400000)]
   \<and> reviewScore 1700000000000 nearTieA = 5370691939361331 / 281474976710656
   \<and> reviewScore 1700000000000 nearTieB = 1342672984840333 / 70368744177664
   \<and> sortedCandidates 1700000000000 [nearTieA, nearTieB] = [nearTieB, nearTieA]
   \<and> lastWrongAt undatedWord = None
   \<and> reviewScore 1700000000000 undatedWord = 6"
proof -
  have u: "lastWrongAt undatedWord = None"
    by (simp add: undatedWord_def)
  have b1: "smartCandidates (words bigState) \<noteq> []"
    and b3: "length (smartCandidates (words bigState)) = 15"
    by (simp_all add: bigState_def fifteenWrong_def smartCandidates_def wrongWord_fields
        newWord_def or0_def)
  have b4: "maxReviewBatchSize (settings bigState) = 10"
    by (simp add: bigState_def DEFAULT_SETTINGS_def)
  have p0: "words (pairState 1700000000000)
      = [wrongWord ''A'' 3 (1700000000000 - 86400000),
         wrongWord ''B'' 1 (1700000000000 - 864000000)]"
    by (simp add: pairState_def)
  from smart_review_selection
    [of "words bigState" 6000 "settings bigState" bigState] b1 b3 b4
  have big: "length (smartSelected 6000 (settings bigState) (words bigState)) = 10
      \<and> sessionWords (handleSmartReview bigState 6000)
          = smartSelected 6000 (settings bigState) (words bigState)
      \<and> view (handleSmartReview bigState 6000) = DICTATION"
    by blast
  from smart_review_selection [of "words (pairState 1700000000000)" 1700000000000]
  have "\<forall>A B. totalWrong A = Some 3 \<and> lastWrongAt A = Some (1700000000000 - 86400000)
         \<and> totalWrong B = Some 1 \<and> lastWrongAt B = Some (1700000000000 - 864000000)
         \<and> (1700000000000::int) \<noteq> 86400000 \<and> (1700000000000::int) \<noteq> 864000000
        \<longrightarrow> reviewScore 1700000000000 A = 7 \<and> reviewScore 1700000000000 B = 12
          \<and> sortedCandidates 1700000000000 [A, B] = [B, A]"
    by blast
  from this [THEN spec, THEN spec,
      of "wrongWord ''A'' 3 (1700000000000 - 86400000)"
         "wrongWord ''B'' 1 (1700000000000 - 864000000)"]
  have pair: "reviewScore 1700000000000 (wrongWord ''A'' 3 (1700000000000 - 86400000)) = 7
      \<and> reviewScore 1700000000000 (wrongWord ''B'' 1 (1700000000000 - 864000000)) = 12
      \<and> sortedCandidates 1700000000000 (words (pairState 1700000000000))
          = [wrongWord ''B'' 1 (1700000000000 - 864000000),
             wrongWord ''A'' 3 (1700000000000 - 86400000)]"
    unfolding p0 by (simp add: wrongWord_fields)
  from b3 b4 big pair nearTie_scores nearTie_sorted u show ?thesis
    by blast
qed

section \<open>Properties of the presentation order\<close>

text \<open>
  C9. For every word list and every sequence of random draws, the \<open>SHUFFLE\<close> order is a
  permutation of the selection: the queue has the same words with the same
  multiplicities, the same length, and the same multiset of ids.
\<close>

theorem shuffle_permutation:
  assumes "order cfg = SHUFFLE"
  shows "mset (initializeQueue rnd ws cfg) = mset ws
     \<and> length (initializeQueue rnd ws cfg) = length ws
     \<and> mset (map id_str (initializeQueue rnd ws cfg)) = mset (map id_str ws)"
proof -
  have m: "mset (initializeQueue rnd ws cfg) = mset ws"
    using assms by (simp add: initializeQueue_def mset_array_sort)
  then have "length (initializeQueue rnd ws cfg) = length ws"
    by (rule mset_eq_length)
  moreover from m have "mset (map id_str (initializeQueue rnd ws cfg)) = mset (map id_str ws)"
    by (metis mset_map)
  ultimately show ?thesis
    using m by blast
qed

theorem shuffle_permutation_witness:
  "order shuffleSettings = SHUFFLE
   \<and> mset (initializeQueue drawsExample fourWords shuffleSettings) = mset fourWords
   \<and> length (initializeQueue drawsExample fourWords shuffleSettings) = 4
   \<and> mset (map id_str (initializeQueue drawsExample fourWords shuffleSettings))
       = mset [''w01'', ''w02'', ''w03'', ''w04'']
   \<and> map id_str (initializeQueue drawsExample fourWords shuffleSettings)
       = [''w01'', ''w04'', ''w02'', ''w03'']
   \<and> map id_str (initializeQueue drawsExample (take 2 fourWords) shuffleSettings)
       = [''w01'', ''w02'']
   \<and> map id_str (initializeQueue (\<lambda>n. 1 / 4) (take 2 fourWords) shuffleSettings)
       = [''w02'', ''w01'']"
proof -
  have h: "order shuffleSettings = SHUFFLE"
    by (simp add: shuffleSettings_def)
  have e: "map id_str (initializeQueue drawsExample fourWords shuffleSettings)
       = [''w01'', ''w04'', ''w02'', ''w03'']"
    "map id_str (initializeQueue drawsExample (take 2 fourWords) shuffleSettings)
       = [''w01'', ''w02'']"
    "map id_str (initializeQueue (\<lambda>n. 1 / 4) (take 2 fourWords) shuffleSettings)
       = [''w02'', ''w01'']"
    by code_simp+
  have f: "length fourWords = 4" "map id_str fourWords = [''w01'', ''w02'', ''w03'', ''w04'']"
    by (simp_all add: fourWords_def wrongWord_fields)
  show ?thesis
    using h e shuffle_permutation [OF h, of drawsExample fourWords] by (simp add: f)
qed

end
